theory Spec2Isabelle
  imports Complex_Main "HOL-Library.Multiset" "HOL-Library.Word"
begin

section \<open>Sugarscape: data model\<close>

text \<open>
  The engine of \<^verbatim>\<open>Sugarscape.py\<close>. A cell is a pair of Python integers. A NumPy
  array of shape \<open>(n, n)\<close> is a function on cells together with the side length \<open>n\<close>:
  every read and write goes through \<open>np_cell\<close>, which is NumPy's index rule (a negative
  index counts from the end, anything else out of range raises IndexError).
  Sizes and counts (\<open>n\<close>, \<open>num_agents\<close>, \<open>starting_box\<close>) are natural numbers.
  Sugar levels are integers: \<open>np.digitize\<close> returns an array of 64-bit integers, and so
  is every later level grid. A level is the integer an element stands for; the one
  arithmetic operation on levels, the addition in \<^verbatim>\<open>grow\<close>, is NumPy's addition of
  64-bit integers, which wraps around (\<open>int64_add\<close>). The growth rate is a 64-bit
  integer as well, as its default is: added to an array of 64-bit integers, a Python
  integer is taken as one, and one that does not fit is refused or turns the grid into
  floating point, depending on the version of NumPy.
\<close>

type_synonym cell = "int \<times> int"
type_synonym grid = "cell \<Rightarrow> int"
type_synonym addr = nat

datatype error = AssertionError | KeyError | IndexError | ValueError | NoReturn

text \<open>The keyword parameters; \<open>None\<close> is an absent key, replaced by the default of
  each \<^verbatim>\<open>params.get\<close>.\<close>

record params =
  num_agents :: "nat option"
  starting_box :: "(nat \<times> nat) option"
  grow_rate :: "64 word option"
  replace :: "bool option"

text \<open>
  Modelled from the spec: the class \<^verbatim>\<open>Agent\<close> of the module \<^verbatim>\<open>SugarAgent\<close>, which
  the engine imports and which is not among the sources. The spec gives an agent a
  location, a vision, a metabolism, a reserve and an age; its step moves it to the cell
  found by \<^verbatim>\<open>look_and_move\<close>, harvests that cell, adds the harvest to the reserve,
  subtracts the metabolism and increments the age; it is dead when the reserve is zero
  or below, or when the age exceeds the lifespan it was configured with.
  The numbers its constructor draws at random are the record \<open>traits\<close>.
\<close>

record agent =
  loc :: cell
  vision :: int
  metabolism :: real
  reserve :: real
  age :: int
  lifespan :: real

record traits =
  t_vision :: int
  t_metabolism :: real
  t_reserve :: real
  t_lifespan :: real

definition Agent :: "cell \<Rightarrow> traits \<Rightarrow> agent" where
  "Agent c tr = \<lparr>loc = c, vision = t_vision tr, metabolism = t_metabolism tr,
     reserve = t_reserve tr, age = 0, lifespan = t_lifespan tr\<rparr>"

definition is_starving :: "agent \<Rightarrow> bool" where
  "is_starving ag = (reserve ag \<le> 0)"

definition is_old :: "agent \<Rightarrow> bool" where
  "is_old ag = (age ag > lifespan ag)"

text \<open>
  The engine. Python objects have identity: \<open>agents\<close> is the list of the addresses of
  the live agents and \<open>heap\<close> holds the object at each address (an address that was
  never allocated holds a placeholder nothing refers to); \<open>next_addr\<close> is the next
  address to allocate.
\<close>

record sugarscape =
  grid_n :: nat
  config :: params
  agent_count_seq :: "nat list"
  capacity :: grid
  array :: grid
  agents :: "addr list"
  heap :: "addr \<Rightarrow> agent"
  next_addr :: addr
  occupied :: "cell set"

text \<open>
  The random source. \<^verbatim>\<open>np.random.shuffle\<close> and \<^verbatim>\<open>np.random.permutation\<close> return
  the rows in an order given by a list of indices \<open>p\<close>; \<open>is_perm p n\<close> says that \<open>p\<close> is
  an outcome they can have on \<open>n\<close> rows. What is drawn while one agent is activated
  is a \<open>draw\<close>: the shuffle of the kernel block of each distance, the cells
  \<^verbatim>\<open>random_loc\<close> tries one after the other, and the traits of the replacement.
\<close>

definition shuffle_by :: "nat list \<Rightarrow> 'a list \<Rightarrow> 'a list" where
  "shuffle_by p xs = map (\<lambda>k. xs ! k) p"

definition is_perm :: "nat list \<Rightarrow> nat \<Rightarrow> bool" where
  "is_perm p n = (length p = n \<and> set p = {0..<n})"

record draw =
  kernel :: "int \<Rightarrow> nat list"
  spawn_cells :: "cell list"
  spawn_traits :: traits

section \<open>Module functions\<close>

definition make_locs :: "nat \<Rightarrow> nat \<Rightarrow> cell list" where
  "make_locs n m = [(int i, int j). i \<leftarrow> [0..<n], j \<leftarrow> [0..<m]]"

definition make_array :: "int \<Rightarrow> nat list \<Rightarrow> cell list" where
  "make_array d p = shuffle_by p [(- d, 0), (d, 0), (0, - d), (0, d)]"

text \<open>\<^verbatim>\<open>np.vstack\<close> of an empty list raises ValueError.\<close>

definition make_visible_locs :: "(int \<Rightarrow> nat list) \<Rightarrow> int \<Rightarrow> error + cell list" where
  "make_visible_locs kern v =
     (let arrays = map (\<lambda>d. make_array d (kern d)) [1..v]
      in if arrays = [] then Inl ValueError else Inr (concat arrays))"

definition hypot :: "real \<Rightarrow> real \<Rightarrow> real" where
  "hypot x y = sqrt (x\<^sup>2 + y\<^sup>2)"

definition distances_from :: "nat \<Rightarrow> int \<Rightarrow> int \<Rightarrow> cell \<Rightarrow> real" where
  "distances_from n i j = (\<lambda>(x, y). hypot (of_int (x - i)) (of_int (y - j)))"

text \<open>\<^verbatim>\<open>np.digitize\<close> on decreasing bins returns the \<open>i\<close> with
  \<open>bins[i-1] > x \<ge> bins[i]\<close>: the number of bins above \<open>x\<close>.\<close>

definition digitize :: "real \<Rightarrow> real list \<Rightarrow> int" where
  "digitize x bins = int (length (filter (\<lambda>b. x < b) bins))"

section \<open>NumPy indexing\<close>

definition np_index :: "nat \<Rightarrow> int \<Rightarrow> error + int" where
  "np_index n i =
     (if 0 \<le> i \<and> i < int n then Inr i
      else if - int n \<le> i \<and> i < 0 then Inr (i + int n)
      else Inl IndexError)"

definition np_cell :: "nat \<Rightarrow> cell \<Rightarrow> error + cell" where
  "np_cell n c =
     (case np_index n (fst c) of Inl e \<Rightarrow> Inl e
      | Inr i \<Rightarrow> (case np_index n (snd c) of Inl e \<Rightarrow> Inl e | Inr j \<Rightarrow> Inr (i, j)))"

definition array_get :: "nat \<Rightarrow> grid \<Rightarrow> cell \<Rightarrow> error + int" where
  "array_get n g c = (case np_cell n c of Inl e \<Rightarrow> Inl e | Inr k \<Rightarrow> Inr (g k))"

text \<open>The test \<open>0 \<le> i < n\<close> on both coordinates: the cells of the grid.\<close>

definition in_grid :: "nat \<Rightarrow> cell \<Rightarrow> bool" where
  "in_grid n c = (0 \<le> fst c \<and> fst c < int n \<and> 0 \<le> snd c \<and> snd c < int n)"

text \<open>NumPy's addition on 64-bit integers: two's complement, wrapping around.\<close>

definition int64_add :: "int \<Rightarrow> 64 word \<Rightarrow> int" where
  "int64_add x r = sint (word_of_int x + r)"

text \<open>NumPy's integer remainder: Python's floored \<open>%\<close>, and 0 (with a warning) when
  the divisor is 0.\<close>

definition np_mod :: "int \<Rightarrow> nat \<Rightarrow> int" where
  "np_mod x n = (if n = 0 then 0 else x mod int n)"

text \<open>\<^verbatim>\<open>np.argmax\<close>: the index of the first maximum; ValueError on an empty
  sequence.\<close>

fun argmax_from :: "nat \<Rightarrow> int \<Rightarrow> nat \<Rightarrow> int list \<Rightarrow> nat" where
  "argmax_from best bv k [] = best"
| "argmax_from best bv k (x # xs) =
     (if bv < x then argmax_from k x (Suc k) xs else argmax_from best bv (Suc k) xs)"

definition argmax :: "int list \<Rightarrow> error + nat" where
  "argmax t = (case t of [] \<Rightarrow> Inl ValueError | x # xs \<Rightarrow> Inr (argmax_from 0 x 1 xs))"

fun read_all :: "nat \<Rightarrow> grid \<Rightarrow> cell list \<Rightarrow> error + int list" where
  "read_all n g [] = Inr []"
| "read_all n g (c # cs) =
     (case array_get n g c of Inl e \<Rightarrow> Inl e
      | Inr x \<Rightarrow> (case read_all n g cs of Inl e \<Rightarrow> Inl e | Inr xs \<Rightarrow> Inr (x # xs)))"

section \<open>The class Sugarscape\<close>

definition make_capacity :: "nat \<Rightarrow> grid" where
  "make_capacity n =
     (let dist1 = distances_from n 15 15;
          dist2 = distances_from n 35 35;
          dist = (\<lambda>c. min (dist1 c) (dist2 c));
          bins = [21, 16, 11, 6]
      in (\<lambda>c. digitize (dist c) bins))"

definition capacity_at :: "nat \<Rightarrow> cell \<Rightarrow> error + int" where
  "capacity_at n c = array_get n (make_capacity n) c"

definition rate_of :: "params \<Rightarrow> 64 word" where
  "rate_of ps = (case grow_rate ps of None \<Rightarrow> 1 | Some r \<Rightarrow> r)"

definition grow :: "sugarscape \<Rightarrow> sugarscape" where
  "grow s =
     (let rate = rate_of (config s)
      in s\<lparr>array := (\<lambda>c. min (int64_add (array s c) rate) (capacity s c))\<rparr>)"

definition wrapped_locs :: "nat \<Rightarrow> cell \<Rightarrow> cell list \<Rightarrow> cell list" where
  "wrapped_locs n center offs =
     map (\<lambda>(di, dj). (np_mod (di + fst center) n, np_mod (dj + snd center) n)) offs"

definition look_and_move :: "sugarscape \<Rightarrow> (int \<Rightarrow> nat list) \<Rightarrow> cell \<Rightarrow> int \<Rightarrow> error + cell" where
  "look_and_move s kern center v =
     (case make_visible_locs kern v of Inl e \<Rightarrow> Inl e
      | Inr offs \<Rightarrow>
          (let locs = wrapped_locs (grid_n s) center offs;
               empty_locs = filter (\<lambda>c. c \<notin> occupied s) locs
           in if length empty_locs = 0 then Inr center
              else (case read_all (grid_n s) (array s) empty_locs of Inl e \<Rightarrow> Inl e
                    | Inr t \<Rightarrow> (case argmax t of Inl e \<Rightarrow> Inl e
                               | Inr i \<Rightarrow> Inr (empty_locs ! i)))))"

definition harvest :: "sugarscape \<Rightarrow> cell \<Rightarrow> error + (int \<times> sugarscape)" where
  "harvest s c =
     (case np_cell (grid_n s) c of Inl e \<Rightarrow> Inl e
      | Inr k \<Rightarrow> Inr (array s k, s\<lparr>array := (array s)(k := 0)\<rparr>))"

text \<open>
  Modelled from the spec: \<^verbatim>\<open>Agent.step\<close> (module \<^verbatim>\<open>SugarAgent\<close>, not among the
  sources), steps 2b and 2c of the spec's \<^verbatim>\<open>step()\<close>.
\<close>

definition agent_step :: "sugarscape \<Rightarrow> (int \<Rightarrow> nat list) \<Rightarrow> addr \<Rightarrow> error + sugarscape" where
  "agent_step s kern a =
     (let ag = heap s a
      in case look_and_move s kern (loc ag) (vision ag) of Inl e \<Rightarrow> Inl e
         | Inr dest \<Rightarrow>
             (let s1 = s\<lparr>heap := (heap s)(a := ag\<lparr>loc := dest\<rparr>)\<rparr>
              in case harvest s1 dest of Inl e \<Rightarrow> Inl e
                 | Inr (got, s2) \<Rightarrow>
                     (let ag2 = heap s2 a
                      in Inr (s2\<lparr>heap := (heap s2)(a := ag2\<lparr>
                            reserve := reserve ag2 + of_int got - metabolism ag2,
                            age := age ag2 + 1\<rparr>)\<rparr>))))"

text \<open>
  \<^verbatim>\<open>random_loc\<close> loops until a drawn cell is unoccupied. The cells it draws, one per
  iteration, are the list \<open>cs\<close>; when all of them are occupied the loop has not
  returned (\<open>NoReturn\<close>), and \<open>random_loc_returns\<close> below shows that it returns as soon
  as one of them is free. \<^verbatim>\<open>np.random.randint(0, size=2)\<close> raises ValueError.
\<close>

fun random_loc :: "sugarscape \<Rightarrow> cell list \<Rightarrow> error + cell" where
  "random_loc s [] = Inl NoReturn"
| "random_loc s (c # cs) =
     (if grid_n s = 0 then Inl ValueError
      else if c \<notin> occupied s then Inr c
      else random_loc s cs)"

definition add_agent :: "sugarscape \<Rightarrow> cell list \<Rightarrow> traits \<Rightarrow> error + sugarscape" where
  "add_agent s cs tr =
     (case random_loc s cs of Inl e \<Rightarrow> Inl e
      | Inr c \<Rightarrow>
          (let a = next_addr s
           in Inr (s\<lparr>agents := agents s @ [a],
                     heap := (heap s)(a := Agent c tr),
                     next_addr := Suc a,
                     occupied := insert c (occupied s)\<rparr>)))"

text \<open>The body of the loop of \<^verbatim>\<open>step\<close>, for the agent at address \<open>a\<close>.
  \<^verbatim>\<open>set.remove\<close> raises KeyError and \<^verbatim>\<open>list.remove\<close> ValueError on a missing
  element.\<close>

definition release :: "sugarscape \<Rightarrow> addr \<Rightarrow> error + sugarscape" where
  "release s a =
     (let c = loc (heap s a)
      in if c \<notin> occupied s then Inl KeyError
         else Inr (s\<lparr>occupied := occupied s - {c}\<rparr>))"

definition settle :: "bool \<Rightarrow> sugarscape \<Rightarrow> draw \<Rightarrow> addr \<Rightarrow> error + sugarscape" where
  "settle repl s d a =
     (if is_starving (heap s a) \<or> is_old (heap s a) then
        (if a \<notin> set (agents s) then Inl ValueError
         else (let s1 = s\<lparr>agents := remove1 a (agents s)\<rparr>
               in if repl then add_agent s1 (spawn_cells d) (spawn_traits d) else Inr s1))
      else Inr (s\<lparr>occupied := insert (loc (heap s a)) (occupied s)\<rparr>))"

definition activate :: "bool \<Rightarrow> sugarscape \<Rightarrow> draw \<Rightarrow> addr \<Rightarrow> error + sugarscape" where
  "activate repl s d a =
     (case release s a of Inl e \<Rightarrow> Inl e
      | Inr s1 \<Rightarrow>
          (case agent_step s1 (kernel d) a of Inl e \<Rightarrow> Inl e
           | Inr s2 \<Rightarrow> settle repl s2 d a))"

fun activate_all :: "bool \<Rightarrow> (addr \<Rightarrow> draw) \<Rightarrow> addr list \<Rightarrow> sugarscape \<Rightarrow> error + sugarscape" where
  "activate_all repl rnd [] s = Inr s"
| "activate_all repl rnd (a # as) s =
     (case activate repl s (rnd a) a of Inl e \<Rightarrow> Inl e
      | Inr s1 \<Rightarrow> activate_all repl rnd as s1)"

text \<open>
  \<^verbatim>\<open>step\<close>: \<open>p\<close> is the outcome of \<^verbatim>\<open>np.random.permutation\<close>, which copies the
  list of agents, and \<open>rnd a\<close> is what is drawn while agent \<open>a\<close> is activated. The
  result is the returned count and the new state.
\<close>

definition step :: "sugarscape \<Rightarrow> nat list \<Rightarrow> (addr \<Rightarrow> draw) \<Rightarrow> error + (nat \<times> sugarscape)" where
  "step s p rnd =
     (let repl = (case replace (config s) of None \<Rightarrow> False | Some b \<Rightarrow> b);
          random_order = shuffle_by p (agents s)
      in case activate_all repl rnd random_order s of Inl e \<Rightarrow> Inl e
         | Inr s1 \<Rightarrow>
             (let s2 = s1\<lparr>agent_count_seq := agent_count_seq s1 @ [length (agents s1)]\<rparr>;
                  s3 = grow s2
              in Inr (length (agents s3), s3)))"

text \<open>
  \<^verbatim>\<open>make_agents\<close>: \<open>p\<close> is the outcome of the shuffle of the candidate cells and
  \<open>trs i\<close> the traits drawn for the \<open>i\<close>-th agent, which is allocated at address \<open>i\<close>.
\<close>

definition box_of :: "sugarscape \<Rightarrow> nat \<times> nat" where
  "box_of s = (case starting_box (config s) of None \<Rightarrow> (grid_n s, grid_n s) | Some b \<Rightarrow> b)"

definition make_agents :: "sugarscape \<Rightarrow> nat list \<Rightarrow> (nat \<Rightarrow> traits) \<Rightarrow> error + sugarscape" where
  "make_agents s p trs =
     (let (n, m) = box_of s;
          locs = shuffle_by p (make_locs n m);
          num = (case num_agents (config s) of None \<Rightarrow> 400 | Some k \<Rightarrow> k)
      in if \<not> num \<le> length locs then Inl AssertionError
         else (let s1 = s\<lparr>agents := [0..<num],
                           heap := (\<lambda>i. if i < num then Agent (locs ! i) (trs i) else heap s i),
                           next_addr := num\<rparr>
               in Inr (s1\<lparr>occupied := set (map (\<lambda>a. loc (heap s1 a)) (agents s1))\<rparr>)))"

definition construct :: "nat \<Rightarrow> params \<Rightarrow> nat list \<Rightarrow> (nat \<Rightarrow> traits) \<Rightarrow> error + sugarscape" where
  "construct n ps p trs =
     (let cap = make_capacity n;
          s = \<lparr>grid_n = n, config = ps, agent_count_seq = [], capacity = cap, array = cap,
               agents = [], heap = (\<lambda>i. Agent (0, 0) (trs i)), next_addr = 0, occupied = {}\<rparr>
      in make_agents s p trs)"

section \<open>Drivers and specification-level definitions\<close>

text \<open>A finite sequence of \<^verbatim>\<open>grow()\<close> and \<^verbatim>\<open>harvest(loc)\<close> calls on an engine. A
  call of \<^verbatim>\<open>harvest\<close> that raises leaves the engine as it was.\<close>

datatype field_op = Grow | Harvest cell

fun apply_op :: "sugarscape \<Rightarrow> field_op \<Rightarrow> sugarscape" where
  "apply_op s Grow = grow s"
| "apply_op s (Harvest c) = (case harvest s c of Inl e \<Rightarrow> s | Inr (v, s1) \<Rightarrow> s1)"

fun apply_ops :: "sugarscape \<Rightarrow> field_op list \<Rightarrow> sugarscape" where
  "apply_ops s [] = s"
| "apply_ops s (x # xs) = apply_ops (apply_op s x) xs"

text \<open>The tiers in the words of the specification: distance \<open>\<ge> 21\<close> gives 0, \<open>\<ge> 16\<close>
  gives 1, \<open>\<ge> 11\<close> gives 2, \<open>\<ge> 6\<close> gives 3, anything else 4.\<close>

definition spec_tier :: "real \<Rightarrow> int" where
  "spec_tier x =
     (if x \<ge> 21 then 0 else if x \<ge> 16 then 1 else if x \<ge> 11 then 2
      else if x \<ge> 6 then 3 else 4)"

text \<open>The point reflection that exchanges the peaks \<open>(15, 15)\<close> and \<open>(35, 35)\<close>.\<close>

definition reflect :: "cell \<Rightarrow> cell" where
  "reflect c = (50 - fst c, 50 - snd c)"

text \<open>The squared distance to the nearer peak: an integer, by which the tiers can be
  computed without square roots.\<close>

definition sq_dist :: "cell \<Rightarrow> int" where
  "sq_dist c = min ((fst c - 15)\<^sup>2 + (snd c - 15)\<^sup>2) ((fst c - 35)\<^sup>2 + (snd c - 35)\<^sup>2)"

text \<open>Sample inputs for the evaluations below.\<close>

definition sample_traits :: traits where
  "sample_traits = \<lparr>t_vision = 1, t_metabolism = 1, t_reserve = 5, t_lifespan = 100\<rparr>"

definition sample_draw :: draw where
  "sample_draw = \<lparr>kernel = (\<lambda>d. [0, 1, 2, 3]), spawn_cells = [(0, 0), (1, 1)],
     spawn_traits = sample_traits\<rparr>"

definition sample_params :: params where
  "sample_params = \<lparr>num_agents = Some 1, starting_box = None, grow_rate = None, replace = None\<rparr>"

text \<open>The candidate cells of the starting region and the requested population, as
  \<^verbatim>\<open>make_agents\<close> reads them from the parameters.\<close>

definition region :: "nat \<Rightarrow> params \<Rightarrow> cell list" where
  "region n ps = (case starting_box ps of None \<Rightarrow> make_locs n n | Some (bn, bm) \<Rightarrow> make_locs bn bm)"

definition requested :: "params \<Rightarrow> nat" where
  "requested ps = (case num_agents ps of None \<Rightarrow> 400 | Some k \<Rightarrow> k)"

text \<open>
  The occupancy invariant: no two live agents share a location, and the occupied set
  is the set of the live agents' locations. \<open>allocated\<close> says that every live agent
  is an object that exists, so that a new object is none of them.
\<close>

definition loc_of :: "sugarscape \<Rightarrow> addr \<Rightarrow> cell" where
  "loc_of s a = loc (heap s a)"

definition locs_of :: "sugarscape \<Rightarrow> cell list" where
  "locs_of s = map (loc_of s) (agents s)"

definition occupancy_ok :: "sugarscape \<Rightarrow> bool" where
  "occupancy_ok s = (distinct (locs_of s) \<and> occupied s = set (locs_of s))"

definition allocated :: "sugarscape \<Rightarrow> bool" where
  "allocated s = list_all (\<lambda>a. a < next_addr s) (agents s)"

definition dead :: "agent \<Rightarrow> bool" where
  "dead ag = (is_starving ag \<or> is_old ag)"

definition replacing :: "sugarscape \<Rightarrow> bool" where
  "replacing s = (case replace (config s) of None \<Rightarrow> False | Some b \<Rightarrow> b)"

text \<open>The engines reachable from construction by completed calls of \<^verbatim>\<open>step\<close>, whatever
  is drawn at random.\<close>

inductive reachable :: "sugarscape \<Rightarrow> bool" where
  constructed: "is_perm p (length (region n ps)) \<Longrightarrow> construct n ps p trs = Inr s \<Longrightarrow> reachable s"
| stepped: "reachable s \<Longrightarrow> is_perm p (length (agents s)) \<Longrightarrow> step s p rnd = Inr (k, s1)
            \<Longrightarrow> reachable s1"

text \<open>
  The call of \<^verbatim>\<open>harvest\<close> in the step of an agent: \<open>harvest_call\<close> is the engine as it
  is when the agent at \<open>a\<close> calls \<^verbatim>\<open>harvest\<close>, together with the cell it passes, and
  \<open>after_harvest\<close> is what the agent does with the value returned. By
  \<open>agent_step_harvest_call\<close> below, the step of an agent is this one call of
  \<^verbatim>\<open>harvest\<close>, made on that engine with that cell, followed by \<open>after_harvest\<close>.
  The harvest of one activation, \<open>harvest_site\<close>, is the cell passed to that call and
  the occupied set of the engine it is made on; \<open>harvest_sites\<close> are the harvests of a
  run of activations, in order.
\<close>

definition harvest_call :: "sugarscape \<Rightarrow> (int \<Rightarrow> nat list) \<Rightarrow> addr \<Rightarrow> error + (sugarscape \<times> cell)" where
  "harvest_call s kern a =
     (let ag = heap s a
      in case look_and_move s kern (loc ag) (vision ag) of Inl e \<Rightarrow> Inl e
         | Inr dest \<Rightarrow> Inr (s\<lparr>heap := (heap s)(a := ag\<lparr>loc := dest\<rparr>)\<rparr>, dest))"

definition after_harvest :: "addr \<Rightarrow> int \<times> sugarscape \<Rightarrow> sugarscape" where
  "after_harvest a r =
     (let ag = heap (snd r) a
      in (snd r)\<lparr>heap := (heap (snd r))(a := ag\<lparr>
            reserve := reserve ag + of_int (fst r) - metabolism ag, age := age ag + 1\<rparr>)\<rparr>)"

definition harvest_site :: "sugarscape \<Rightarrow> draw \<Rightarrow> addr \<Rightarrow> error + (cell \<times> cell set)" where
  "harvest_site s d a =
     (case release s a of Inl e \<Rightarrow> Inl e
      | Inr s1 \<Rightarrow>
          (case harvest_call s1 (kernel d) a of Inl e \<Rightarrow> Inl e
           | Inr (s2, dest) \<Rightarrow> Inr (dest, occupied s2)))"

fun harvest_sites :: "bool \<Rightarrow> (addr \<Rightarrow> draw) \<Rightarrow> addr list \<Rightarrow> sugarscape \<Rightarrow> (addr \<times> cell \<times> cell set) list" where
  "harvest_sites repl rnd [] s = []"
| "harvest_sites repl rnd (a # as) s =
     (case harvest_site s (rnd a) a of Inl e \<Rightarrow> []
      | Inr ev \<Rightarrow> (a, ev) #
          (case activate repl s (rnd a) a of Inl e \<Rightarrow> []
           | Inr s1 \<Rightarrow> harvest_sites repl rnd as s1))"

text \<open>Three agents on the grid of size 2, the first of which dies of age at its first
  step; \<open>trio_params r\<close> sets the replace option to \<open>r\<close>.\<close>

definition trio_params :: "bool \<Rightarrow> params" where
  "trio_params r = \<lparr>num_agents = Some 3, starting_box = None, grow_rate = None, replace = Some r\<rparr>"

definition trio_traits :: "nat \<Rightarrow> traits" where
  "trio_traits i = (if i = 0 then \<lparr>t_vision = 1, t_metabolism = 1, t_reserve = 5, t_lifespan = 0\<rparr>
                    else sample_traits)"

section \<open>What each operation leaves unchanged\<close>

lemma harvest_frame:
  "harvest s c = Inr (v, s1) \<Longrightarrow>
     capacity s1 = capacity s \<and> grid_n s1 = grid_n s \<and> config s1 = config s \<and>
     agents s1 = agents s \<and> heap s1 = heap s \<and> next_addr s1 = next_addr s \<and>
     occupied s1 = occupied s \<and> agent_count_seq s1 = agent_count_seq s"
  by (auto simp: harvest_def split: sum.splits)

lemma agent_step_frame:
  "agent_step s kern a = Inr s1 \<Longrightarrow>
     capacity s1 = capacity s \<and> grid_n s1 = grid_n s \<and> config s1 = config s \<and>
     agents s1 = agents s \<and> next_addr s1 = next_addr s \<and>
     occupied s1 = occupied s \<and> agent_count_seq s1 = agent_count_seq s \<and>
     (\<forall>b. b \<noteq> a \<longrightarrow> heap s1 b = heap s b)"
  by (auto simp: agent_step_def Let_def split: sum.splits prod.splits dest!: harvest_frame)

lemma release_frame:
  "release s a = Inr s1 \<Longrightarrow>
     capacity s1 = capacity s \<and> grid_n s1 = grid_n s \<and> config s1 = config s \<and>
     agents s1 = agents s \<and> heap s1 = heap s \<and> next_addr s1 = next_addr s \<and>
     array s1 = array s \<and> agent_count_seq s1 = agent_count_seq s"
  by (auto simp: release_def Let_def split: if_splits)

lemma add_agent_frame:
  "add_agent s cs tr = Inr s1 \<Longrightarrow>
     capacity s1 = capacity s \<and> grid_n s1 = grid_n s \<and> config s1 = config s \<and>
     array s1 = array s \<and> agent_count_seq s1 = agent_count_seq s"
  by (auto simp: add_agent_def Let_def split: sum.splits)

lemma settle_frame:
  "settle r s d a = Inr s1 \<Longrightarrow>
     capacity s1 = capacity s \<and> grid_n s1 = grid_n s \<and> config s1 = config s \<and>
     array s1 = array s \<and> agent_count_seq s1 = agent_count_seq s"
  by (auto simp: settle_def Let_def split: if_splits dest!: add_agent_frame)

lemma activate_frame:
  "activate r s d a = Inr s1 \<Longrightarrow>
     capacity s1 = capacity s \<and> grid_n s1 = grid_n s \<and> config s1 = config s \<and>
     agent_count_seq s1 = agent_count_seq s"
  by (auto simp: activate_def split: sum.splits dest!: release_frame agent_step_frame settle_frame)

lemma activate_all_frame:
  "activate_all r rnd as s = Inr s1 \<Longrightarrow>
     capacity s1 = capacity s \<and> grid_n s1 = grid_n s \<and> config s1 = config s \<and>
     agent_count_seq s1 = agent_count_seq s"
proof (induction as arbitrary: s)
  case Nil
  then show ?case by simp
next
  case (Cons a as)
  then show ?case
    by (fastforce split: sum.splits dest: activate_frame)
qed

lemma step_frame:
  "step s p rnd = Inr (k, s1) \<Longrightarrow>
     capacity s1 = capacity s \<and> grid_n s1 = grid_n s \<and> config s1 = config s"
  by (auto simp: step_def Let_def grow_def split: sum.splits dest!: activate_all_frame)

lemma construct_fields:
  "construct n ps p trs = Inr s \<Longrightarrow>
     capacity s = make_capacity n \<and> array s = make_capacity n \<and> grid_n s = n \<and> config s = ps
     \<and> agent_count_seq s = []"
  by (auto simp: construct_def make_agents_def Let_def split: if_splits prod.splits)

section \<open>The capacity grid\<close>

lemma hypot_ge_iff:
  "0 \<le> b \<Longrightarrow> (b \<le> hypot (of_int x) (of_int y)) = (b\<^sup>2 \<le> of_int (x\<^sup>2 + y\<^sup>2))"
  unfolding hypot_def
  by (metis (no_types, lifting) of_int_add of_int_power real_le_rsqrt real_sqrt_le_iff
      real_sqrt_abs abs_of_nonneg)

lemma digitize_bins: "digitize x [21, 16, 11, 6] = spec_tier x"
  by (simp add: digitize_def spec_tier_def)

lemma make_capacity_eq:
  "make_capacity n (x, y) =
     spec_tier (min (hypot (of_int (x - 15)) (of_int (y - 15)))
                    (hypot (of_int (x - 35)) (of_int (y - 35))))"
  by (simp add: make_capacity_def distances_from_def digitize_bins)

lemma min_ge_iff: "(b \<le> min (u::real) v) = (b \<le> u \<and> b \<le> v)"
  by auto

text \<open>The tiers by integer arithmetic: a square root of an integer is at least 21
  exactly when the integer is at least 441, and so on for each bin edge.\<close>

lemma make_capacity_exact:
  "make_capacity n c =
     (if sq_dist c \<ge> 441 then 0 else if sq_dist c \<ge> 256 then 1
      else if sq_dist c \<ge> 121 then 2 else if sq_dist c \<ge> 36 then 3 else 4)"
proof -
  obtain x y where c: "c = (x, y)" by (cases c)
  have k: "\<And>b::real. 0 \<le> b \<Longrightarrow>
     (b \<le> min (hypot (of_int (x - 15)) (of_int (y - 15))) (hypot (of_int (x - 35)) (of_int (y - 35))))
     = (b\<^sup>2 \<le> of_int (sq_dist c))"
    unfolding min_ge_iff c sq_dist_def
    by (simp only: hypot_ge_iff fst_conv snd_conv of_int_min min_ge_iff)
  show ?thesis
    unfolding c make_capacity_eq spec_tier_def
    using k[of 21] k[of 16] k[of 11] k[of 6] unfolding c
    by simp
qed

lemma make_capacity_nonneg: "0 \<le> make_capacity n c"
  by (simp add: make_capacity_exact)

lemma np_cell_in_grid: "in_grid n c \<Longrightarrow> np_cell n c = Inr c"
  by (cases c) (simp add: in_grid_def np_cell_def np_index_def)

lemma sq_dist_reflect: "sq_dist (reflect c) = sq_dist c"
  by (simp add: sq_dist_def reflect_def power2_commute min.commute algebra_simps)

text \<open>The reflection in the anti-diagonal through the midpoint of the peaks exchanges
  them as well, and leaves the squared distance unchanged too.\<close>

lemma sq_dist_antidiagonal: "sq_dist (50 - snd c, 50 - fst c) = sq_dist c"
  by (simp add: sq_dist_def power2_commute min.commute algebra_simps)

lemma make_locs_2_2: "make_locs 2 2 = [(0, 0), (0, 1), (1, 0), (1, 1)]"
  by (simp add: make_locs_def upt_rec numeral_2_eq_2)

declare make_capacity_exact [code]

lemma Inr_caseD: "(case x of Inl e \<Rightarrow> False | Inr y \<Rightarrow> P y) \<Longrightarrow> \<exists>y. x = Inr y \<and> P y"
  by (cases x) auto

text \<open>
  Claim C7. Construction sets the capacity grid to \<open>make_capacity n\<close>, whose value at
  each cell of the grid is the tier, in the words of the specification, of the smaller
  of the two Euclidean distances to the peaks \<open>(15, 15)\<close> and \<open>(35, 35)\<close>; and
  \<^verbatim>\<open>grow\<close>, \<^verbatim>\<open>harvest\<close> and \<^verbatim>\<open>step\<close> leave the capacity grid as it is.
  Distances are real numbers here; \<open>make_capacity_exact\<close> shows that the tier only
  depends on comparing an integer with 441, 256, 121 and 36.
\<close>

theorem capacity_tiers:
  "(construct n ps p trs = Inr s \<longrightarrow> capacity s = make_capacity n) \<and>
   (in_grid m (x, y) \<longrightarrow>
      capacity_at m (x, y) =
        Inr (spec_tier (min (hypot (of_int (x - 15)) (of_int (y - 15)))
                            (hypot (of_int (x - 35)) (of_int (y - 35)))))) \<and>
   capacity (grow s1) = capacity s1 \<and>
   (harvest s1 c = Inr (v, s2) \<longrightarrow> capacity s2 = capacity s1) \<and>
   (step s1 q rnd = Inr (k, s3) \<longrightarrow> capacity s3 = capacity s1)"
proof -
  have a: "construct n ps p trs = Inr s \<longrightarrow> capacity s = make_capacity n"
    by (simp add: construct_fields)
  have b: "in_grid m (x, y) \<longrightarrow>
      capacity_at m (x, y) =
        Inr (spec_tier (min (hypot (of_int (x - 15)) (of_int (y - 15)))
                            (hypot (of_int (x - 35)) (of_int (y - 35)))))"
    by (simp add: capacity_at_def array_get_def np_cell_in_grid make_capacity_eq)
  have c: "capacity (grow s1) = capacity s1"
    by (simp add: grow_def Let_def)
  have d: "harvest s1 c = Inr (v, s2) \<longrightarrow> capacity s2 = capacity s1"
    by (simp add: harvest_frame)
  have e: "step s1 q rnd = Inr (k, s3) \<longrightarrow> capacity s3 = capacity s1"
    by (simp add: step_frame)
  from a b c d e show ?thesis by blast
qed

theorem capacity_tiers_witness:
  "\<exists>s v s2 k s3.
     construct 2 sample_params [0, 1, 2, 3] (\<lambda>_. sample_traits) = Inr s \<and>
     capacity s = make_capacity 2 \<and>
     in_grid 50 (20, 15) \<and>
     capacity_at 50 (20, 15) =
       Inr (spec_tier (min (hypot (of_int (20 - 15)) (of_int (15 - 15)))
                           (hypot (of_int (20 - 35)) (of_int (15 - 35))))) \<and>
     capacity_at 50 (20, 15) = Inr 4 \<and>
     capacity (grow s) = capacity s \<and>
     harvest s (1, 1) = Inr (v, s2) \<and> capacity s2 = capacity s \<and>
     step s [0] (\<lambda>_. sample_draw) = Inr (k, s3) \<and> capacity s3 = capacity s"
proof -
  have "case construct 2 sample_params [0, 1, 2, 3] (\<lambda>_. sample_traits) of Inl e \<Rightarrow> False
        | Inr s \<Rightarrow> (case harvest s (1, 1) of Inl e \<Rightarrow> False | Inr r \<Rightarrow> True) \<and>
                   (case step s [0] (\<lambda>_. sample_draw) of Inl e \<Rightarrow> False | Inr r \<Rightarrow> True)"
    by code_simp
  then obtain s where s: "construct 2 sample_params [0, 1, 2, 3] (\<lambda>_. sample_traits) = Inr s"
    and h: "case harvest s (1, 1) of Inl e \<Rightarrow> False | Inr r \<Rightarrow> True"
    and t: "case step s [0] (\<lambda>_. sample_draw) of Inl e \<Rightarrow> False | Inr r \<Rightarrow> True"
    by (blast dest: Inr_caseD)
  from h obtain v s2 where h2: "harvest s (1, 1) = Inr (v, s2)"
    by (cases "harvest s (1, 1)") auto
  from t obtain k s3 where t2: "step s [0] (\<lambda>_. sample_draw) = Inr (k, s3)"
    by (cases "step s [0] (\<lambda>_. sample_draw)") auto
  have g: "in_grid 50 (20, 15)" by (simp add: in_grid_def)
  have f: "capacity_at 50 (20, 15) = Inr 4" by code_simp
  from capacity_tiers[of 2 sample_params "[0, 1, 2, 3]" "\<lambda>_. sample_traits" s 50 20 15 s
      "(1, 1)" v s2 "[0]" "\<lambda>_. sample_draw" k s3] s h2 t2 g f
  show ?thesis by blast
qed

text \<open>
  Claim C9, as amended. For every cell of the grid whose image under the reflection
  exchanging the two peaks is a cell of the grid too, both cells have the same
  capacity.
\<close>

theorem capacity_reflection:
  assumes "in_grid n c" and "in_grid n (reflect c)"
  shows "\<exists>v. capacity_at n c = Inr v \<and> capacity_at n (reflect c) = Inr v"
  using assms
  by (simp add: capacity_at_def array_get_def np_cell_in_grid make_capacity_exact sq_dist_reflect)

theorem capacity_reflection_witness:
  "in_grid 50 (10, 20) \<and> in_grid 50 (reflect (10, 20)) \<and> reflect (10, 20) = (40, 30) \<and>
   (\<exists>v. capacity_at 50 (10, 20) = Inr v \<and> capacity_at 50 (reflect (10, 20)) = Inr v)"
proof -
  have a: "in_grid 50 (10, 20)" and b: "in_grid 50 (reflect (10, 20))"
    by (simp_all add: in_grid_def reflect_def)
  have c: "reflect (10, 20) = (40, 30)" by (simp add: reflect_def)
  from capacity_reflection[OF a b] a b c show ?thesis by blast
qed

text \<open>
  The claim C9 as it is written fails: on the grid of size 50 the reflection sends the
  cell \<open>(0, 0)\<close> to \<open>(50, 50)\<close>, which is no cell of the grid (reading it raises
  IndexError); on the grid of size 60 it sends \<open>(55, 10)\<close> to \<open>(-5, 40)\<close>, which NumPy
  reads as the cell \<open>(55, 40)\<close>, of another capacity.
\<close>

theorem capacity_reflection_counterexample:
  "in_grid 50 (0, 0) \<and> capacity_at 50 (0, 0) = Inr 0 \<and>
   reflect (0, 0) = (50, 50) \<and> capacity_at 50 (reflect (0, 0)) = Inl IndexError \<and>
   in_grid 60 (55, 10) \<and> capacity_at 60 (55, 10) = Inr 0 \<and>
   reflect (55, 10) = (- 5, 40) \<and> capacity_at 60 (reflect (55, 10)) = Inr 1"
  by (simp add: in_grid_def reflect_def capacity_at_def array_get_def np_cell_def np_index_def
      make_capacity_exact sq_dist_def)

section \<open>Resource levels\<close>

lemma int64_add_exact:
  assumes "- (2 ^ 63) \<le> x" and "x < 2 ^ 63" and "- (2 ^ 63) \<le> x + sint r" and "x + sint r < 2 ^ 63"
  shows "int64_add x r = x + sint r"
proof -
  have "sint (word_of_int x :: 64 word) = x"
    using assms(1,2) by (simp add: sint_sbintrunc' signed_take_bit_int_eq_self)
  then have "sint (word_of_int x + r) = signed_take_bit 63 (x + sint r)"
    by (simp add: sint_word_ariths)
  also have "\<dots> = x + sint r"
    using assms(3,4) by (rule signed_take_bit_int_eq_self)
  finally show ?thesis by (simp add: int64_add_def)
qed

lemma make_capacity_le_4: "make_capacity n c \<le> 4"
  by (simp add: make_capacity_exact)

lemma apply_op_frame:
  "capacity (apply_op s x) = capacity s \<and> config (apply_op s x) = config s \<and>
   grid_n (apply_op s x) = grid_n s"
  by (cases x) (auto simp: grow_def Let_def split: sum.splits dest!: harvest_frame)

lemma apply_op_upper:
  assumes "\<And>c. 0 \<le> capacity s c" and "\<And>c. array s c \<le> capacity s c"
  shows "array (apply_op s x) c \<le> capacity s c"
proof (cases x)
  case Grow
  then show ?thesis by (simp add: grow_def Let_def)
next
  case (Harvest k)
  then show ?thesis using assms
    by (auto simp: harvest_def split: sum.splits)
qed

lemma apply_op_lower:
  assumes "0 \<le> sint (rate_of (config s))" and "capacity s c + sint (rate_of (config s)) < 2 ^ 63"
    and "capacity s c \<le> 4" and "0 \<le> array s c" and "array s c \<le> capacity s c"
  shows "0 \<le> array (apply_op s x) c"
proof (cases x)
  case Grow
  have "int64_add (array s c) (rate_of (config s)) = array s c + sint (rate_of (config s))"
    using assms by (intro int64_add_exact) simp_all
  then show ?thesis using Grow assms by (simp add: grow_def Let_def)
next
  case (Harvest k)
  then show ?thesis using assms
    by (auto simp: harvest_def split: sum.splits)
qed

lemma apply_ops_bounds:
  assumes "\<And>k. 0 \<le> capacity s k" and "\<And>k. array s k \<le> capacity s k"
  shows "array (apply_ops s xs) c \<le> capacity (apply_ops s xs) c \<and>
         (0 \<le> sint (rate_of (config s)) \<and> capacity s c + sint (rate_of (config s)) < 2 ^ 63 \<and>
          capacity s c \<le> 4 \<and> 0 \<le> array s c \<longrightarrow> 0 \<le> array (apply_ops s xs) c)"
  using assms
proof (induction xs arbitrary: s)
  case Nil
  then show ?case by simp
next
  case (Cons x xs)
  have up: "\<And>k. array (apply_op s x) k \<le> capacity (apply_op s x) k"
    using apply_op_upper[OF Cons.prems] by (simp add: apply_op_frame)
  have cp: "\<And>k. 0 \<le> capacity (apply_op s x) k"
    using Cons.prems(1) by (simp add: apply_op_frame)
  note ih = Cons.IH[OF cp up]
  have lo: "0 \<le> array (apply_op s x) c"
    if "0 \<le> sint (rate_of (config s))" "capacity s c + sint (rate_of (config s)) < 2 ^ 63"
      "capacity s c \<le> 4" "0 \<le> array s c"
    using that Cons.prems(2)[of c] by (rule apply_op_lower)
  show ?case
    unfolding apply_ops.simps using ih lo by (simp add: apply_op_frame)
qed

text \<open>
  Claim C2, as amended. After construction and any finite sequence of \<^verbatim>\<open>grow()\<close> and
  \<^verbatim>\<open>harvest()\<close> calls, the level of every cell is at most its capacity; and it is at
  least 0 when the growth rate is not negative and the sum of the cell's capacity and
  the growth rate is at most \<open>2^63 - 1\<close>, so that the 64-bit addition of \<^verbatim>\<open>grow\<close> does
  not wrap around at that cell.
\<close>

theorem levels_bounded:
  assumes "construct n ps p trs = Inr s"
  shows "array (apply_ops s ops) c \<le> capacity (apply_ops s ops) c \<and>
         (0 \<le> sint (rate_of ps) \<and> capacity s c + sint (rate_of ps) < 2 ^ 63
            \<longrightarrow> 0 \<le> array (apply_ops s ops) c)"
proof -
  from assms have f: "capacity s = make_capacity n" "array s = make_capacity n" "config s = ps"
    by (simp_all add: construct_fields)
  have "array (apply_ops s ops) c \<le> capacity (apply_ops s ops) c \<and>
         (0 \<le> sint (rate_of (config s)) \<and> capacity s c + sint (rate_of (config s)) < 2 ^ 63 \<and>
          capacity s c \<le> 4 \<and> 0 \<le> array s c \<longrightarrow> 0 \<le> array (apply_ops s ops) c)"
    by (rule apply_ops_bounds) (simp_all add: f make_capacity_nonneg)
  then show ?thesis
    by (simp add: f make_capacity_nonneg make_capacity_le_4)
qed

theorem levels_bounded_witness:
  "\<exists>s. construct 2 sample_params [0, 1, 2, 3] (\<lambda>_. sample_traits) = Inr s \<and>
     0 \<le> sint (rate_of sample_params) \<and> capacity s (1, 1) + sint (rate_of sample_params) < 2 ^ 63 \<and>
     array (apply_ops s [Harvest (1, 1), Grow, Grow, Harvest (0, 1), Grow]) (1, 1)
       \<le> capacity (apply_ops s [Harvest (1, 1), Grow, Grow, Harvest (0, 1), Grow]) (1, 1) \<and>
     0 \<le> array (apply_ops s [Harvest (1, 1), Grow, Grow, Harvest (0, 1), Grow]) (1, 1) \<and>
     array (apply_ops s [Harvest (1, 1), Grow, Grow, Harvest (0, 1), Grow]) (1, 1) = 1"
proof -
  have "case construct 2 sample_params [0, 1, 2, 3] (\<lambda>_. sample_traits) of Inl e \<Rightarrow> False
        | Inr s \<Rightarrow> capacity s (1, 1) + sint (rate_of sample_params) < 2 ^ 63 \<and>
            array (apply_ops s [Harvest (1, 1), Grow, Grow, Harvest (0, 1), Grow]) (1, 1) = 1"
    by code_simp
  then obtain s where s: "construct 2 sample_params [0, 1, 2, 3] (\<lambda>_. sample_traits) = Inr s"
    and b: "capacity s (1, 1) + sint (rate_of sample_params) < 2 ^ 63"
    and v: "array (apply_ops s [Harvest (1, 1), Grow, Grow, Harvest (0, 1), Grow]) (1, 1) = 1"
    by (blast dest: Inr_caseD)
  have r: "0 \<le> sint (rate_of sample_params)"
    by (simp add: sample_params_def rate_of_def)
  from levels_bounded[OF s, of "[Harvest (1, 1), Grow, Grow, Harvest (0, 1), Grow]" "(1, 1)"] r b s v
  show ?thesis by blast
qed

text \<open>
  The claim C2 as it is written fails in its lower bound. A negative growth rate,
  which \<^verbatim>\<open>params.get('grow_rate', 1)\<close> accepts, lowers the levels: on the grid of size
  1, whose only cell has capacity 0, one \<^verbatim>\<open>grow()\<close> at rate \<open>-1\<close> leaves the level \<open>-1\<close>.
  And a growth rate that is not negative can wrap around: on the grid of size 2, the
  cell \<open>(1, 1)\<close> has capacity and level 1, and one \<^verbatim>\<open>grow()\<close> at rate \<open>2^63 - 1\<close> leaves
  the level \<open>-2^63\<close>.
\<close>

theorem levels_nonneg_counterexample:
  "(\<exists>s. construct 1 \<lparr>num_agents = Some 0, starting_box = None, grow_rate = Some (- 1),
            replace = None\<rparr> [0] (\<lambda>_. sample_traits) = Inr s \<and>
       in_grid (grid_n s) (0, 0) \<and> array s = capacity s \<and>
       array (apply_ops s [Grow]) (0, 0) = - 1 \<and>
       \<not> 0 \<le> array (apply_ops s [Grow]) (0, 0)) \<and>
   (\<exists>s. construct 2 \<lparr>num_agents = Some 0, starting_box = None,
            grow_rate = Some 9223372036854775807, replace = None\<rparr> [0, 1, 2, 3]
            (\<lambda>_. sample_traits) = Inr s \<and>
       in_grid (grid_n s) (1, 1) \<and> array s = capacity s \<and> array s (1, 1) = 1 \<and>
       0 \<le> sint (rate_of (config s)) \<and>
       array (apply_ops s [Grow]) (1, 1) = - 9223372036854775808 \<and>
       \<not> 0 \<le> array (apply_ops s [Grow]) (1, 1))"
proof -
  have "case construct 1 \<lparr>num_agents = Some 0, starting_box = None, grow_rate = Some (- 1),
            replace = None\<rparr> [0] (\<lambda>_. sample_traits) of Inl e \<Rightarrow> False
        | Inr s \<Rightarrow> in_grid (grid_n s) (0, 0) \<and> array (apply_ops s [Grow]) (0, 0) = - 1"
    by code_simp
  then obtain s where s: "construct 1 \<lparr>num_agents = Some 0, starting_box = None,
            grow_rate = Some (- 1), replace = None\<rparr> [0] (\<lambda>_. sample_traits) = Inr s"
    and v: "in_grid (grid_n s) (0, 0)" "array (apply_ops s [Grow]) (0, 0) = - 1"
    by (blast dest: Inr_caseD)
  from s have "array s = capacity s" by (simp add: construct_fields)
  with s v have a: "\<exists>s. construct 1 \<lparr>num_agents = Some 0, starting_box = None, grow_rate = Some (- 1),
            replace = None\<rparr> [0] (\<lambda>_. sample_traits) = Inr s \<and>
       in_grid (grid_n s) (0, 0) \<and> array s = capacity s \<and>
       array (apply_ops s [Grow]) (0, 0) = - 1 \<and>
       \<not> 0 \<le> array (apply_ops s [Grow]) (0, 0)"
    by auto
  have "case construct 2 \<lparr>num_agents = Some 0, starting_box = None,
            grow_rate = Some 9223372036854775807, replace = None\<rparr> [0, 1, 2, 3]
            (\<lambda>_. sample_traits) of Inl e \<Rightarrow> False
        | Inr s \<Rightarrow> in_grid (grid_n s) (1, 1) \<and> array s (1, 1) = 1 \<and>
            0 \<le> sint (rate_of (config s)) \<and>
            array (apply_ops s [Grow]) (1, 1) = - 9223372036854775808"
    by code_simp
  then obtain t where t: "construct 2 \<lparr>num_agents = Some 0, starting_box = None,
            grow_rate = Some 9223372036854775807, replace = None\<rparr> [0, 1, 2, 3]
            (\<lambda>_. sample_traits) = Inr t"
    and w: "in_grid (grid_n t) (1, 1)" "array t (1, 1) = 1" "0 \<le> sint (rate_of (config t))"
      "array (apply_ops t [Grow]) (1, 1) = - 9223372036854775808"
    by (blast dest: Inr_caseD)
  from t have "array t = capacity t" by (simp add: construct_fields)
  with t w have b: "\<exists>s. construct 2 \<lparr>num_agents = Some 0, starting_box = None,
            grow_rate = Some 9223372036854775807, replace = None\<rparr> [0, 1, 2, 3]
            (\<lambda>_. sample_traits) = Inr s \<and>
       in_grid (grid_n s) (1, 1) \<and> array s = capacity s \<and> array s (1, 1) = 1 \<and>
       0 \<le> sint (rate_of (config s)) \<and>
       array (apply_ops s [Grow]) (1, 1) = - 9223372036854775808 \<and>
       \<not> 0 \<le> array (apply_ops s [Grow]) (1, 1)"
    by auto
  from a b show ?thesis by (rule conjI)
qed

section \<open>The visibility kernel and the choice of a destination\<close>

lemma argmax_from_first:
  assumes "length ys = k" and "best < k" and "ys ! best = bv"
    and "\<forall>j<k. ys ! j \<le> bv" and "\<forall>j<best. ys ! j < bv"
  shows "argmax_from best bv k xs < length (ys @ xs) \<and>
         (\<forall>j<length (ys @ xs). (ys @ xs) ! j \<le> (ys @ xs) ! argmax_from best bv k xs) \<and>
         (\<forall>j<argmax_from best bv k xs. (ys @ xs) ! j < (ys @ xs) ! argmax_from best bv k xs)"
  using assms
proof (induction xs arbitrary: best bv k ys)
  case Nil
  then show ?case by simp
next
  case (Cons x xs)
  show ?case
  proof (cases "bv < x")
    case True
    have "argmax_from k x (Suc k) xs < length ((ys @ [x]) @ xs) \<and>
         (\<forall>j<length ((ys @ [x]) @ xs). ((ys @ [x]) @ xs) ! j \<le> ((ys @ [x]) @ xs) ! argmax_from k x (Suc k) xs) \<and>
         (\<forall>j<argmax_from k x (Suc k) xs. ((ys @ [x]) @ xs) ! j < ((ys @ [x]) @ xs) ! argmax_from k x (Suc k) xs)"
    proof (rule Cons.IH)
      show "length (ys @ [x]) = Suc k" using Cons.prems by simp
      show "k < Suc k" by simp
      show "(ys @ [x]) ! k = x" using Cons.prems by (simp add: nth_append)
      show "\<forall>j<Suc k. (ys @ [x]) ! j \<le> x"
        using Cons.prems True by (auto simp: nth_append less_Suc_eq)
      show "\<forall>j<k. (ys @ [x]) ! j < x"
        using Cons.prems True by (auto simp: nth_append)
    qed
    with True show ?thesis by simp
  next
    case False
    have "argmax_from best bv (Suc k) xs < length ((ys @ [x]) @ xs) \<and>
         (\<forall>j<length ((ys @ [x]) @ xs). ((ys @ [x]) @ xs) ! j \<le> ((ys @ [x]) @ xs) ! argmax_from best bv (Suc k) xs) \<and>
         (\<forall>j<argmax_from best bv (Suc k) xs. ((ys @ [x]) @ xs) ! j < ((ys @ [x]) @ xs) ! argmax_from best bv (Suc k) xs)"
    proof (rule Cons.IH)
      show "length (ys @ [x]) = Suc k" using Cons.prems by simp
      show "best < Suc k" using Cons.prems by simp
      show "(ys @ [x]) ! best = bv" using Cons.prems by (simp add: nth_append)
      show "\<forall>j<Suc k. (ys @ [x]) ! j \<le> bv"
        using Cons.prems False by (auto simp: nth_append less_Suc_eq)
      show "\<forall>j<best. (ys @ [x]) ! j < bv"
        using Cons.prems by (auto simp: nth_append)
    qed
    with False show ?thesis by simp
  qed
qed

lemma argmax_first:
  assumes "t \<noteq> []"
  shows "\<exists>i. argmax t = Inr i \<and> i < length t \<and> (\<forall>j<length t. t ! j \<le> t ! i) \<and> (\<forall>j<i. t ! j < t ! i)"
proof -
  from assms obtain x xs where t: "t = x # xs" by (cases t) auto
  have "argmax_from 0 x 1 xs < length ([x] @ xs) \<and>
         (\<forall>j<length ([x] @ xs). ([x] @ xs) ! j \<le> ([x] @ xs) ! argmax_from 0 x 1 xs) \<and>
         (\<forall>j<argmax_from 0 x 1 xs. ([x] @ xs) ! j < ([x] @ xs) ! argmax_from 0 x 1 xs)"
    by (rule argmax_from_first) simp_all
  then show ?thesis by (simp add: t argmax_def)
qed

lemma filter_nth_origin:
  "i < length (filter P xs) \<Longrightarrow>
     \<exists>k<length xs. xs ! k = filter P xs ! i \<and>
        (\<forall>j<k. P (xs ! j) \<longrightarrow> (\<exists>i'<i. filter P xs ! i' = xs ! j))"
proof (induction xs arbitrary: i)
  case Nil
  then show ?case by simp
next
  case (Cons x xs)
  show ?case
  proof (cases "P x")
    case True
    show ?thesis
    proof (cases i)
      case 0
      with True show ?thesis by auto
    next
      case (Suc i0)
      with Cons.prems True have "i0 < length (filter P xs)" by simp
      from Cons.IH[OF this] obtain k where k: "k < length xs" "xs ! k = filter P xs ! i0"
        "\<forall>j<k. P (xs ! j) \<longrightarrow> (\<exists>i'<i0. filter P xs ! i' = xs ! j)" by blast
      have "\<forall>j<Suc k. P ((x # xs) ! j) \<longrightarrow> (\<exists>i'<i. filter P (x # xs) ! i' = (x # xs) ! j)"
      proof (intro allI impI)
        fix j assume j: "j < Suc k" "P ((x # xs) ! j)"
        show "\<exists>i'<i. filter P (x # xs) ! i' = (x # xs) ! j"
        proof (cases j)
          case 0
          with True Suc show ?thesis by (intro exI[of _ 0]) simp
        next
          case (Suc j0)
          with j k obtain i' where "i' < i0" "filter P xs ! i' = xs ! j0" by auto
          with True \<open>i = Suc i0\<close> Suc show ?thesis by (intro exI[of _ "Suc i'"]) simp
        qed
      qed
      with k True Suc show ?thesis by (intro exI[of _ "Suc k"]) simp
    qed
  next
    case False
    with Cons.prems have "i < length (filter P xs)" by simp
    from Cons.IH[OF this] obtain k where k: "k < length xs" "xs ! k = filter P xs ! i"
      "\<forall>j<k. P (xs ! j) \<longrightarrow> (\<exists>i'<i. filter P xs ! i' = xs ! j)" by blast
    have "\<forall>j<Suc k. P ((x # xs) ! j) \<longrightarrow> (\<exists>i'<i. filter P (x # xs) ! i' = (x # xs) ! j)"
    proof (intro allI impI)
      fix j assume j: "j < Suc k" "P ((x # xs) ! j)"
      show "\<exists>i'<i. filter P (x # xs) ! i' = (x # xs) ! j"
      proof (cases j)
        case 0
        with False j show ?thesis by simp
      next
        case (Suc j0)
        with j k False show ?thesis by auto
      qed
    qed
    with k False show ?thesis by (intro exI[of _ "Suc k"]) simp
  qed
qed

lemma read_all_in_grid:
  "\<forall>c\<in>set cs. in_grid n c \<Longrightarrow> read_all n g cs = Inr (map g cs)"
  by (induction cs) (simp_all add: array_get_def np_cell_in_grid)

lemma np_mod_range: "0 < n \<Longrightarrow> 0 \<le> np_mod x n \<and> np_mod x n < int n"
  by (simp add: np_mod_def)

lemma wrapped_locs_in_grid: "0 < n \<Longrightarrow> c \<in> set (wrapped_locs n center offs) \<Longrightarrow> in_grid n c"
  by (auto simp: wrapped_locs_def in_grid_def np_mod_range)

lemma shuffle_by_mset:
  assumes "is_perm p (length xs)"
  shows "mset (shuffle_by p xs) = mset xs"
proof -
  from assms have l: "length p = length xs" and s: "set p = {0..<length xs}"
    by (simp_all add: is_perm_def)
  have "card (set p) = length p" using l s by simp
  then have d: "distinct p" by (simp add: card_distinct)
  have "mset p = mset [0..<length xs]"
    by (rule set_eq_iff_mset_eq_distinct[THEN iffD1]) (simp_all add: d s)
  then have "mset (map (\<lambda>k. xs ! k) p) = mset (map (\<lambda>k. xs ! k) [0..<length xs])"
    by (metis mset_map)
  then show ?thesis by (simp add: shuffle_by_def map_nth)
qed

lemma shuffle_by_length: "length (shuffle_by p xs) = length p"
  by (simp add: shuffle_by_def)

lemma concat_blocks:
  fixes f :: "int \<Rightarrow> 'a list"
  assumes "\<forall>d. 1 \<le> d \<and> d \<le> v \<longrightarrow> length (f d) = m"
  shows "length (concat (map f [1..v])) = m * nat v \<and>
         (\<forall>d. 1 \<le> d \<and> d \<le> v \<longrightarrow> take m (drop (m * nat (d - 1)) (concat (map f [1..v]))) = f d)"
  using assms
proof (induction "nat v" arbitrary: v)
  case 0
  then have "[1..v] = []" and "v \<le> 0" by simp_all
  then show ?case by auto
next
  case (Suc k)
  then have v: "1 \<le> v" and k: "k = nat (v - 1)" by linarith+
  from v have up: "[1..v] = [1..v - 1] @ [v]" by (simp add: upto_rec2)
  have ih: "length (concat (map f [1..v - 1])) = m * nat (v - 1) \<and>
         (\<forall>d. 1 \<le> d \<and> d \<le> v - 1 \<longrightarrow> take m (drop (m * nat (d - 1)) (concat (map f [1..v - 1]))) = f d)"
    by (rule Suc.hyps(1)) (use k Suc.prems in auto)
  have lv: "length (f v) = m" using Suc.prems v by simp
  have len: "length (concat (map f [1..v])) = m * nat v"
  proof -
    have "nat v = Suc (nat (v - 1))" using v by simp
    then show ?thesis using ih lv by (simp add: up)
  qed
  have blk: "take m (drop (m * nat (d - 1)) (concat (map f [1..v]))) = f d" if d: "1 \<le> d" "d \<le> v" for d
  proof (cases "d = v")
    case True
    then show ?thesis using ih lv by (simp add: up)
  next
    case False
    with d have d1: "d \<le> v - 1" by simp
    have "nat (d - 1) + 1 \<le> nat (v - 1)" using d d1 by linarith
    then have "m * (nat (d - 1) + 1) \<le> m * nat (v - 1)" by (rule mult_le_mono2)
    then have le: "m * nat (d - 1) + m \<le> length (concat (map f [1..v - 1]))"
      using ih by (simp add: algebra_simps)
    have "take m (drop (m * nat (d - 1)) (concat (map f [1..v - 1]) @ f v))
          = take m (drop (m * nat (d - 1)) (concat (map f [1..v - 1])))"
      using le by simp
    with ih d d1 show ?thesis by (simp add: up)
  qed
  from len blk show ?case by blast
qed


lemma make_array_mset:
  "is_perm p 4 \<Longrightarrow> mset (make_array d p) = mset [(- d, 0), (d, 0), (0, - d), (0, d)]"
proof -
  assume p: "is_perm p 4"
  have "length [(- d, 0), (d, 0), (0, - d), (0, d)] = 4" by simp
  with p have "is_perm p (length [(- d, 0), (d, 0), (0, - d), (0, d)])" by (simp only:)
  then show ?thesis unfolding make_array_def by (rule shuffle_by_mset)
qed

lemma make_array_length: "is_perm p 4 \<Longrightarrow> length (make_array d p) = 4"
  by (simp add: make_array_def shuffle_by_length is_perm_def)

lemma make_visible_locs_Inr:
  "1 \<le> v \<Longrightarrow> make_visible_locs kern v = Inr (concat (map (\<lambda>d. make_array d (kern d)) [1..v]))"
  by (simp add: make_visible_locs_def Let_def upto_rec1)

text \<open>
  Claim C4. For a vision \<open>v \<ge> 1\<close>, whatever the shuffles drawn in this invocation, the
  kernel is a list of \<open>4 v\<close> offsets; its \<open>d\<close>-th block of four is a permutation of
  \<open>(-d, 0), (d, 0), (0, -d), (0, d)\<close>, so the offset at index \<open>j\<close> lies on an axis at
  distance \<open>j div 4 + 1\<close>; and on a grid of size \<open>n \<ge> 1\<close> the caller's candidates are
  these offsets translated by the center and reduced modulo \<open>n\<close>, all of them cells of
  the grid.
\<close>

theorem visible_kernel_blocks:
  assumes "1 \<le> v" and "\<forall>d. 1 \<le> d \<and> d \<le> v \<longrightarrow> is_perm (kern d) 4"
  shows "\<exists>offs. make_visible_locs kern v = Inr offs \<and> length offs = 4 * nat v \<and>
     (\<forall>d. 1 \<le> d \<and> d \<le> v \<longrightarrow>
        mset (take 4 (drop (4 * nat (d - 1)) offs)) = mset [(- d, 0), (d, 0), (0, - d), (0, d)]) \<and>
     (\<forall>j<length offs. (fst (offs ! j) = 0 \<or> snd (offs ! j) = 0) \<and>
        \<bar>fst (offs ! j)\<bar> + \<bar>snd (offs ! j)\<bar> = int (j div 4) + 1) \<and>
     (0 < n \<longrightarrow> length (wrapped_locs n center offs) = 4 * nat v \<and>
        (\<forall>j<length offs. wrapped_locs n center offs ! j =
           ((fst (offs ! j) + fst center) mod int n, (snd (offs ! j) + snd center) mod int n)) \<and>
        (\<forall>c\<in>set (wrapped_locs n center offs). in_grid n c))"
proof -
  define f where "f = (\<lambda>d. make_array d (kern d))"
  define offs where "offs = concat (map f [1..v])"
  have mv: "make_visible_locs kern v = Inr offs"
    using assms(1) by (simp add: make_visible_locs_Inr offs_def f_def)
  have fl: "\<forall>d. 1 \<le> d \<and> d \<le> v \<longrightarrow> length (f d) = 4"
    using assms(2) by (simp add: f_def make_array_length)
  from concat_blocks[OF fl] have len: "length offs = 4 * nat v"
    and blk: "\<And>d. 1 \<le> d \<Longrightarrow> d \<le> v \<Longrightarrow> take 4 (drop (4 * nat (d - 1)) offs) = f d"
    by (simp_all add: offs_def)
  have ms: "mset (take 4 (drop (4 * nat (d - 1)) offs)) = mset [(- d, 0), (d, 0), (0, - d), (0, d)]"
    if "1 \<le> d" "d \<le> v" for d
    using that blk[of d] assms(2) by (simp add: f_def make_array_mset)
  have ax: "(fst (offs ! j) = 0 \<or> snd (offs ! j) = 0) \<and>
        \<bar>fst (offs ! j)\<bar> + \<bar>snd (offs ! j)\<bar> = int (j div 4) + 1" if j: "j < length offs" for j
  proof -
    define d where "d = int (j div 4) + 1"
    have d: "1 \<le> d" "d \<le> v" "nat (d - 1) = j div 4"
      using j len by (auto simp: d_def)
    have jj: "4 * (j div 4) + j mod 4 = j" by simp
    have "take 4 (drop (4 * (j div 4)) offs) ! (j mod 4) = offs ! (4 * (j div 4) + j mod 4)"
      using j by (subst nth_take) simp_all
    then have e: "take 4 (drop (4 * (j div 4)) offs) ! (j mod 4) = offs ! j"
      by (simp only: jj)
    have l4: "length (take 4 (drop (4 * nat (d - 1)) offs)) = 4"
      using blk[OF d(1,2)] fl d by simp
    have "offs ! j \<in> set (take 4 (drop (4 * nat (d - 1)) offs))"
      unfolding d(3) e[symmetric] using l4 d(3) by (intro nth_mem) simp
    also have "\<dots> = set [(- d, 0), (d, 0), (0, - d), (0, d)]"
      using ms[OF d(1,2)] by (rule mset_eq_setD)
    finally have "offs ! j \<in> {(- d, 0), (d, 0), (0, - d), (0, d)}" by simp
    with d(1) show ?thesis unfolding d_def[symmetric] by auto
  qed
  have wr: "length (wrapped_locs n center offs) = 4 * nat v \<and>
        (\<forall>j<length offs. wrapped_locs n center offs ! j =
           ((fst (offs ! j) + fst center) mod int n, (snd (offs ! j) + snd center) mod int n)) \<and>
        (\<forall>c\<in>set (wrapped_locs n center offs). in_grid n c)" if n: "0 < n"
    using n len by (auto simp: wrapped_locs_def np_mod_def in_grid_def split: prod.splits)
  from mv len ms ax wr show ?thesis by blast
qed

theorem visible_kernel_blocks_witness:
  "1 \<le> (2::int) \<and> is_perm [2, 0, 3, 1] 4 \<and> (0::nat) < 3 \<and>
   make_visible_locs (\<lambda>d. [2, 0, 3, 1]) 2 =
     Inr [(0, - 1), (- 1, 0), (0, 1), (1, 0), (0, - 2), (- 2, 0), (0, 2), (2, 0)] \<and>
   wrapped_locs 3 (0, 2) [(0, - 1), (- 1, 0), (0, 1), (1, 0), (0, - 2), (- 2, 0), (0, 2), (2, 0)] =
     [(0, 1), (2, 2), (0, 0), (1, 2), (0, 0), (1, 2), (0, 1), (2, 2)] \<and>
   (\<exists>offs. make_visible_locs (\<lambda>d. [2, 0, 3, 1]) 2 = Inr offs \<and> length offs = 8 \<and>
      mset (take 4 (drop 4 offs)) = mset [(- 2, 0), (2, 0), (0, - 2), (0, 2)] \<and>
      length (wrapped_locs 3 (0, 2) offs) = 8 \<and>
      list_all (in_grid 3) (wrapped_locs 3 (0, 2) offs))"
proof -
  have p: "is_perm [2, 0, 3, 1] 4" by code_simp
  have a: "\<forall>d. 1 \<le> d \<and> d \<le> (2::int) \<longrightarrow> is_perm ((\<lambda>d. [2, 0, 3, 1]) d) 4"
    using p by simp
  have e: "make_visible_locs (\<lambda>d. [2, 0, 3, 1]) 2 =
     Inr [(0, - 1), (- 1, 0), (0, 1), (1, 0), (0, - 2), (- 2, 0), (0, 2), (2, 0)]"
    by code_simp
  have w: "wrapped_locs 3 (0, 2) [(0, - 1), (- 1, 0), (0, 1), (1, 0), (0, - 2), (- 2, 0), (0, 2), (2, 0)] =
     [(0, 1), (2, 2), (0, 0), (1, 2), (0, 0), (1, 2), (0, 1), (2, 2)]"
    by code_simp
  from visible_kernel_blocks[of 2 "\<lambda>d. [2, 0, 3, 1]" 3 "(0, 2)", OF _ a]
  obtain offs where o: "make_visible_locs (\<lambda>d. [2, 0, 3, 1]) 2 = Inr offs" "length offs = 4 * nat 2"
     "\<forall>d. 1 \<le> d \<and> d \<le> 2 \<longrightarrow>
        mset (take 4 (drop (4 * nat (d - 1)) offs)) = mset [(- d, 0), (d, 0), (0, - d), (0, d)]"
     "length (wrapped_locs 3 (0, 2) offs) = 4 * nat 2"
     "\<forall>c\<in>set (wrapped_locs 3 (0, 2) offs). in_grid 3 c"
    by auto
  from o(3) have "mset (take 4 (drop (4 * nat (2 - 1)) offs)) = mset [(- 2, 0), (2, 0), (0, - 2), (0, 2)]"
    by (metis (no_types, lifting) one_le_numeral order_refl)
  then have b: "mset (take 4 (drop 4 offs)) = mset [(- 2, 0), (2, 0), (0, - 2), (0, 2)]" by simp
  from o(5) have c: "list_all (in_grid 3) (wrapped_locs 3 (0, 2) offs)"
    by (simp add: list_all_iff)
  from p e w o(1,2,4) b c show ?thesis by auto
qed

text \<open>
  Claim C3. On a grid of size \<open>n \<ge> 1\<close> and for a vision \<open>v \<ge> 1\<close>, \<^verbatim>\<open>look_and_move\<close>
  returns the center when every wrapped visible cell is occupied; otherwise it returns
  the visible cell at the first index \<open>i\<close> of the kernel's generation order that is
  unoccupied and whose level is maximal among the unoccupied visible cells: every
  unoccupied visible cell has a level at most that of cell \<open>i\<close>, and every one generated
  before \<open>i\<close> a strictly smaller level, so that among tied maxima the first generated,
  which by C4 is a closest one, is returned.
\<close>

theorem look_and_move_choice:
  assumes "0 < grid_n s" and "1 \<le> v"
  shows "\<exists>offs. make_visible_locs kern v = Inr offs \<and>
     (let locs = wrapped_locs (grid_n s) center offs in
        (set locs \<subseteq> occupied s \<and> look_and_move s kern center v = Inr center) \<or>
        (\<exists>i<length locs. look_and_move s kern center v = Inr (locs ! i) \<and> locs ! i \<notin> occupied s \<and>
           (\<forall>j<length locs. locs ! j \<notin> occupied s \<longrightarrow> array s (locs ! j) \<le> array s (locs ! i)) \<and>
           (\<forall>j<i. locs ! j \<notin> occupied s \<longrightarrow> array s (locs ! j) < array s (locs ! i))))"
proof -
  define offs where "offs = concat (map (\<lambda>d. make_array d (kern d)) [1..v])"
  define locs where "locs = wrapped_locs (grid_n s) center offs"
  define cand where "cand = filter (\<lambda>c. c \<notin> occupied s) locs"
  have mv: "make_visible_locs kern v = Inr offs"
    using assms(2) by (simp add: make_visible_locs_Inr offs_def)
  have ig: "\<forall>c\<in>set cand. in_grid (grid_n s) c"
    using assms(1) by (auto simp: cand_def locs_def wrapped_locs_in_grid)
  have rd: "read_all (grid_n s) (array s) cand = Inr (map (array s) cand)"
    using ig by (rule read_all_in_grid)
  show ?thesis
  proof (cases "cand = []")
    case True
    then have "set locs \<subseteq> occupied s" by (auto simp: cand_def filter_empty_conv)
    moreover have "look_and_move s kern center v = Inr center"
      using True by (simp add: look_and_move_def mv Let_def locs_def[symmetric] cand_def[symmetric])
    ultimately show ?thesis using mv by (auto simp: Let_def locs_def[symmetric])
  next
    case False
    then have "map (array s) cand \<noteq> []" by simp
    from argmax_first[OF this] obtain i where i: "argmax (map (array s) cand) = Inr i"
      "i < length cand" "\<forall>j<length cand. array s (cand ! j) \<le> array s (cand ! i)"
      "\<forall>j<i. array s (cand ! j) < array s (cand ! i)"
      by auto
    have lm: "look_and_move s kern center v = Inr (cand ! i)"
      using False i(1) rd
      by (simp add: look_and_move_def mv Let_def locs_def[symmetric] cand_def[symmetric])
    from filter_nth_origin[of i "\<lambda>c. c \<notin> occupied s" locs] i(2)
    obtain k where k: "k < length locs" "locs ! k = cand ! i"
      "\<forall>j<k. locs ! j \<notin> occupied s \<longrightarrow> (\<exists>i'<i. cand ! i' = locs ! j)"
      by (auto simp: cand_def)
    have free: "locs ! k \<notin> occupied s"
    proof -
      have "cand ! i \<in> set cand" using i(2) by simp
      then show ?thesis by (simp add: k(2) cand_def)
    qed
    have mx: "array s (locs ! j) \<le> array s (locs ! k)" if "j < length locs" "locs ! j \<notin> occupied s" for j
    proof -
      from that have "locs ! j \<in> set cand" by (simp add: cand_def)
      then obtain j' where "j' < length cand" "cand ! j' = locs ! j" by (auto simp: in_set_conv_nth)
      with i(3) show ?thesis by (metis k(2))
    qed
    have fs: "array s (locs ! j) < array s (locs ! k)" if "j < k" "locs ! j \<notin> occupied s" for j
    proof -
      from that k(3) obtain i' where "i' < i" "cand ! i' = locs ! j" by blast
      with i(4) show ?thesis by (metis k(2))
    qed
    have "\<exists>i<length locs. look_and_move s kern center v = Inr (locs ! i) \<and> locs ! i \<notin> occupied s \<and>
           (\<forall>j<length locs. locs ! j \<notin> occupied s \<longrightarrow> array s (locs ! j) \<le> array s (locs ! i)) \<and>
           (\<forall>j<i. locs ! j \<notin> occupied s \<longrightarrow> array s (locs ! j) < array s (locs ! i))"
      using k(1) lm k(2) free mx fs by (intro exI[of _ k]) simp
    then show ?thesis using mv by (auto simp: Let_def locs_def[symmetric])
  qed
qed


theorem look_and_move_choice_witness:
  "\<exists>s. construct 3 sample_params [1, 0, 2, 3, 4, 5, 6, 7, 8] (\<lambda>_. sample_traits) = Inr s \<and>
     0 < grid_n s \<and> occupied s = {(0, 1)} \<and>
     wrapped_locs (grid_n s) (0, 2) [(0, - 1), (- 1, 0), (0, 1), (1, 0), (0, - 2), (- 2, 0), (0, 2), (2, 0)] =
       [(0, 1), (2, 2), (0, 0), (1, 2), (0, 0), (1, 2), (0, 1), (2, 2)] \<and>
     look_and_move s (\<lambda>d. [2, 0, 3, 1]) (0, 2) 2 = Inr (2, 2) \<and>
     (\<exists>offs. make_visible_locs (\<lambda>d. [2, 0, 3, 1]) 2 = Inr offs \<and>
     (let locs = wrapped_locs (grid_n s) (0, 2) offs in
        (set locs \<subseteq> occupied s \<and> look_and_move s (\<lambda>d. [2, 0, 3, 1]) (0, 2) 2 = Inr (0, 2)) \<or>
        (\<exists>i<length locs. look_and_move s (\<lambda>d. [2, 0, 3, 1]) (0, 2) 2 = Inr (locs ! i) \<and>
           locs ! i \<notin> occupied s \<and>
           (\<forall>j<length locs. locs ! j \<notin> occupied s \<longrightarrow> array s (locs ! j) \<le> array s (locs ! i)) \<and>
           (\<forall>j<i. locs ! j \<notin> occupied s \<longrightarrow> array s (locs ! j) < array s (locs ! i)))))"
proof -
  have "case construct 3 sample_params [1, 0, 2, 3, 4, 5, 6, 7, 8] (\<lambda>_. sample_traits) of
          Inl e \<Rightarrow> False
        | Inr s \<Rightarrow> 0 < grid_n s \<and> occupied s = {(0, 1)} \<and>
            wrapped_locs (grid_n s) (0, 2) [(0, - 1), (- 1, 0), (0, 1), (1, 0), (0, - 2), (- 2, 0), (0, 2), (2, 0)] =
              [(0, 1), (2, 2), (0, 0), (1, 2), (0, 0), (1, 2), (0, 1), (2, 2)] \<and>
            look_and_move s (\<lambda>d. [2, 0, 3, 1]) (0, 2) 2 = Inr (2, 2)"
    by code_simp
  then obtain s where s: "construct 3 sample_params [1, 0, 2, 3, 4, 5, 6, 7, 8] (\<lambda>_. sample_traits) = Inr s"
    and g: "0 < grid_n s" and r: "occupied s = {(0, 1)}"
      "wrapped_locs (grid_n s) (0, 2) [(0, - 1), (- 1, 0), (0, 1), (1, 0), (0, - 2), (- 2, 0), (0, 2), (2, 0)] =
              [(0, 1), (2, 2), (0, 0), (1, 2), (0, 0), (1, 2), (0, 1), (2, 2)]"
      "look_and_move s (\<lambda>d. [2, 0, 3, 1]) (0, 2) 2 = Inr (2, 2)"
    by (blast dest: Inr_caseD)
  have v: "1 \<le> (2::int)" by simp
  from look_and_move_choice[OF g v, of "\<lambda>d. [2, 0, 3, 1]" "(0, 2)"] s g r
  show ?thesis by blast
qed

section \<open>Construction\<close>

lemma make_locs_length: "length (make_locs n m) = n * m"
  by (simp add: make_locs_def length_concat comp_def sum_list_triv)

lemma make_locs_set:
  "set (make_locs n m) = {c. 0 \<le> fst c \<and> fst c < int n \<and> 0 \<le> snd c \<and> snd c < int m}"
proof -
  have nn: "(int i, int j) \<in> set (make_locs n m)" if "i < n" "j < m" for i j
    unfolding make_locs_def using that
    by (auto intro!: bexI[of _ i] image_eqI[of _ _ j])
  have "(a, b) \<in> set (make_locs n m)" if "0 \<le> a" "a < int n" "0 \<le> b" "b < int m" for a b
    using nn[of "nat a" "nat b"] that by simp
  then show ?thesis by (auto simp: make_locs_def)
qed

lemma make_locs_Suc: "make_locs (Suc n) m = make_locs n m @ map (\<lambda>j. (int n, int j)) [0..<m]"
  by (simp add: make_locs_def)

lemma make_locs_distinct: "distinct (make_locs n m)"
proof (induction n)
  case 0
  then show ?case by (simp add: make_locs_def)
next
  case (Suc n)
  have "distinct (map (\<lambda>j. (int n, int j)) [0..<m])"
    by (simp add: distinct_map inj_on_def)
  moreover have "set (make_locs n m) \<inter> set (map (\<lambda>j. (int n, int j)) [0..<m]) = {}"
    by (auto simp: make_locs_set)
  ultimately show ?case using Suc by (simp add: make_locs_Suc)
qed

lemma is_perm_distinct: "is_perm p n \<Longrightarrow> distinct p"
proof -
  assume "is_perm p n"
  then have "card (set p) = length p" by (simp add: is_perm_def)
  then show ?thesis by (simp add: card_distinct)
qed

lemma shuffle_by_distinct:
  assumes "is_perm p (length xs)" and "distinct xs"
  shows "distinct (shuffle_by p xs)"
  using shuffle_by_mset[OF assms(1)] assms(2) by (metis distinct_count_atmost_1 mset_eq_setD)

lemma shuffle_by_set: "is_perm p (length xs) \<Longrightarrow> set (shuffle_by p xs) = set xs"
  by (rule mset_eq_setD) (rule shuffle_by_mset)

lemma construct_unfold:
  "construct n ps p trs =
     (let locs = shuffle_by p (region n ps) in
      if requested ps \<le> length locs then
        Inr \<lparr>grid_n = n, config = ps, agent_count_seq = [], capacity = make_capacity n,
             array = make_capacity n, agents = [0..<requested ps],
             heap = (\<lambda>i. if i < requested ps then Agent (locs ! i) (trs i) else Agent (0, 0) (trs i)),
             next_addr = requested ps,
             occupied = set (map (\<lambda>a. locs ! a) [0..<requested ps])\<rparr>
      else Inl AssertionError)"
  by (auto simp: construct_def make_agents_def box_of_def region_def requested_def Let_def Agent_def
      split: option.splits prod.splits intro!: arg_cong[where f=set])

lemma construct_locs:
  assumes "is_perm p (length (region n ps))" and s: "construct n ps p trs = Inr s"
  shows "length (agents s) = requested ps \<and>
         distinct (map (\<lambda>a. loc (heap s a)) (agents s)) \<and>
         set (map (\<lambda>a. loc (heap s a)) (agents s)) \<subseteq> set (region n ps) \<and>
         occupied s = set (map (\<lambda>a. loc (heap s a)) (agents s))"
proof -
  define locs where "locs = shuffle_by p (region n ps)"
  have dr: "distinct (region n ps)"
    by (simp add: region_def make_locs_distinct split: option.splits prod.splits)
  have dl: "distinct locs" unfolding locs_def using assms(1) dr by (rule shuffle_by_distinct)
  have sl: "set locs = set (region n ps)" unfolding locs_def using assms(1) by (rule shuffle_by_set)
  from s have le: "requested ps \<le> length locs"
    by (auto simp: construct_unfold Let_def locs_def[symmetric] split: if_splits)
  from s le have ag: "agents s = [0..<requested ps]"
    and hp: "\<And>i. i < requested ps \<Longrightarrow> loc (heap s i) = locs ! i"
    and oc: "occupied s = set (map (\<lambda>a. locs ! a) [0..<requested ps])"
    by (auto simp: construct_unfold Let_def locs_def[symmetric] Agent_def)
  have m: "map (\<lambda>a. loc (heap s a)) (agents s) = take (requested ps) locs"
    unfolding ag using le hp by (auto simp: list_eq_iff_nth_eq)
  have m2: "map (\<lambda>a. locs ! a) [0..<requested ps] = take (requested ps) locs"
    using le by (auto simp: list_eq_iff_nth_eq)
  show ?thesis
    unfolding m oc m2 using dl sl le by (auto simp: ag dest: in_set_takeD)
qed

text \<open>
  Claim C8. Whatever the shuffle of the candidate cells, construction fails, with the
  AssertionError of \<^verbatim>\<open>make_agents\<close>, exactly when the requested population exceeds
  the number of candidate cells of the starting region, and succeeds otherwise; on
  success there are exactly as many agents as requested, at pairwise distinct cells of
  the starting region, and these cells are the occupied set.
\<close>

theorem construct_placement:
  assumes "is_perm p (length (region n ps))"
  shows "length (region n ps) = (case starting_box ps of None \<Rightarrow> n * n | Some (bn, bm) \<Rightarrow> bn * bm) \<and>
         (construct n ps p trs = Inl AssertionError \<longleftrightarrow> length (region n ps) < requested ps) \<and>
         ((\<exists>s. construct n ps p trs = Inr s) \<longleftrightarrow> requested ps \<le> length (region n ps)) \<and>
         (\<forall>s. construct n ps p trs = Inr s \<longrightarrow>
            length (agents s) = requested ps \<and>
            distinct (map (\<lambda>a. loc (heap s a)) (agents s)) \<and>
            set (map (\<lambda>a. loc (heap s a)) (agents s)) \<subseteq> set (region n ps) \<and>
            occupied s = set (map (\<lambda>a. loc (heap s a)) (agents s)))"
proof -
  define locs where "locs = shuffle_by p (region n ps)"
  have len: "length locs = length (region n ps)"
    using assms by (simp add: locs_def shuffle_by_length is_perm_def)
  have a: "construct n ps p trs = Inl AssertionError \<longleftrightarrow> length (region n ps) < requested ps"
    by (auto simp: construct_unfold Let_def locs_def[symmetric] len)
  have b: "(\<exists>s. construct n ps p trs = Inr s) \<longleftrightarrow> requested ps \<le> length (region n ps)"
    by (auto simp: construct_unfold Let_def locs_def[symmetric] len)
  have c: "length (agents s) = requested ps \<and>
            distinct (map (\<lambda>a. loc (heap s a)) (agents s)) \<and>
            set (map (\<lambda>a. loc (heap s a)) (agents s)) \<subseteq> set (region n ps) \<and>
            occupied s = set (map (\<lambda>a. loc (heap s a)) (agents s))"
    if s: "construct n ps p trs = Inr s" for s
    using assms s by (rule construct_locs)
  have d: "length (region n ps) = (case starting_box ps of None \<Rightarrow> n * n | Some (bn, bm) \<Rightarrow> bn * bm)"
    by (simp add: region_def make_locs_length split: option.splits prod.splits)
  from a b c d show ?thesis by blast
qed

theorem construct_placement_witness:
  "is_perm [3, 1, 0, 2] (length (region 3 \<lparr>num_agents = Some 4, starting_box = Some (2, 2),
      grow_rate = None, replace = None\<rparr>)) \<and>
   is_perm [3, 1, 0, 2] (length (region 3 \<lparr>num_agents = Some 5, starting_box = Some (2, 2),
      grow_rate = None, replace = None\<rparr>)) \<and>
   construct 3 \<lparr>num_agents = Some 5, starting_box = Some (2, 2), grow_rate = None, replace = None\<rparr>
      [3, 1, 0, 2] (\<lambda>_. sample_traits) = Inl AssertionError \<and>
   (\<exists>s. construct 3 \<lparr>num_agents = Some 4, starting_box = Some (2, 2), grow_rate = None,
          replace = None\<rparr> [3, 1, 0, 2] (\<lambda>_. sample_traits) = Inr s \<and>
        length (agents s) = 4 \<and>
        map (\<lambda>a. loc (heap s a)) (agents s) = [(1, 1), (0, 1), (0, 0), (1, 0)] \<and>
        distinct (map (\<lambda>a. loc (heap s a)) (agents s)) \<and>
        occupied s = set (map (\<lambda>a. loc (heap s a)) (agents s)))"
proof -
  have p4: "is_perm [3, 1, 0, 2] (length (region 3 \<lparr>num_agents = Some 4, starting_box = Some (2, 2),
      grow_rate = None, replace = None\<rparr>))"
    by code_simp
  have p5: "is_perm [3, 1, 0, 2] (length (region 3 \<lparr>num_agents = Some 5, starting_box = Some (2, 2),
      grow_rate = None, replace = None\<rparr>))"
    by code_simp
  have r5: "length (region 3 \<lparr>num_agents = Some 5, starting_box = Some (2, 2), grow_rate = None,
      replace = None\<rparr>) < requested \<lparr>num_agents = Some 5, starting_box = Some (2, 2),
      grow_rate = None, replace = None\<rparr>"
    by code_simp
  have r4: "requested \<lparr>num_agents = Some 4, starting_box = Some (2, 2), grow_rate = None,
      replace = None\<rparr> \<le> length (region 3 \<lparr>num_agents = Some 4, starting_box = Some (2, 2),
      grow_rate = None, replace = None\<rparr>)"
    by code_simp
  have q4: "requested \<lparr>num_agents = Some 4, starting_box = Some (2, 2), grow_rate = None,
      replace = None\<rparr> = 4"
    by (simp add: requested_def)
  from construct_placement[OF p5, of "\<lambda>_. sample_traits"] r5
  have f: "construct 3 \<lparr>num_agents = Some 5, starting_box = Some (2, 2), grow_rate = None,
      replace = None\<rparr> [3, 1, 0, 2] (\<lambda>_. sample_traits) = Inl AssertionError"
    by blast
  from construct_placement[OF p4, of "\<lambda>_. sample_traits"] r4
  obtain s where s: "construct 3 \<lparr>num_agents = Some 4, starting_box = Some (2, 2), grow_rate = None,
          replace = None\<rparr> [3, 1, 0, 2] (\<lambda>_. sample_traits) = Inr s"
    by blast
  from construct_placement[OF p4, of "\<lambda>_. sample_traits"] s q4
  have g: "length (agents s) = 4" "distinct (map (\<lambda>a. loc (heap s a)) (agents s))"
    "occupied s = set (map (\<lambda>a. loc (heap s a)) (agents s))"
    by auto
  have "case construct 3 \<lparr>num_agents = Some 4, starting_box = Some (2, 2), grow_rate = None,
          replace = None\<rparr> [3, 1, 0, 2] (\<lambda>_. sample_traits) of Inl e \<Rightarrow> False
        | Inr s \<Rightarrow> map (\<lambda>a. loc (heap s a)) (agents s) = [(1, 1), (0, 1), (0, 0), (1, 0)]"
    by code_simp
  with s have h: "map (\<lambda>a. loc (heap s a)) (agents s) = [(1, 1), (0, 1), (0, 0), (1, 0)]"
    by simp
  show ?thesis
    using p4 p5 f s g h by (intro conjI exI[of _ s])
qed

section \<open>One activation and the occupancy invariant\<close>

lemma occupancy_ok_alt:
  "occupancy_ok s \<longleftrightarrow> distinct (agents s) \<and> inj_on (loc_of s) (set (agents s)) \<and>
     occupied s = loc_of s ` set (agents s)"
  by (auto simp: occupancy_ok_def locs_of_def distinct_map)

lemma read_all_length: "read_all n g cs = Inr t \<Longrightarrow> length t = length cs"
  by (induction cs arbitrary: t) (auto split: sum.splits)

lemma look_and_move_free:
  assumes "look_and_move s kern c v = Inr d"
  shows "d = c \<or> d \<notin> occupied s"
proof -
  from assms obtain offs where mv: "make_visible_locs kern v = Inr offs"
    by (auto simp: look_and_move_def split: sum.splits)
  define cand where "cand = filter (\<lambda>c. c \<notin> occupied s) (wrapped_locs (grid_n s) c offs)"
  show ?thesis
  proof (cases "cand = []")
    case True
    with assms mv show ?thesis by (simp add: look_and_move_def Let_def cand_def[symmetric])
  next
    case False
    with assms mv obtain t i where t: "read_all (grid_n s) (array s) cand = Inr t"
      and i: "argmax t = Inr i" and d: "d = cand ! i"
      by (auto simp: look_and_move_def Let_def cand_def[symmetric] split: sum.splits)
    from t have lt: "length t = length cand" by (rule read_all_length)
    with False have "t \<noteq> []" by auto
    from argmax_first[OF this] i lt have "i < length cand" by auto
    then have "d \<in> set cand" unfolding d by simp
    then show ?thesis by (simp add: cand_def)
  qed
qed

lemma agent_step_dest:
  assumes "agent_step s kern a = Inr s2"
  shows "loc_of s2 a = loc_of s a \<or> loc_of s2 a \<notin> occupied s"
proof -
  from assms obtain dest where lm: "look_and_move s kern (loc (heap s a)) (vision (heap s a)) = Inr dest"
    by (auto simp: agent_step_def Let_def split: sum.splits)
  from assms lm have "loc (heap s2 a) = dest"
    by (auto simp: agent_step_def Let_def harvest_def split: sum.splits prod.splits)
  with look_and_move_free[OF lm] show ?thesis by (auto simp: loc_of_def)
qed


text \<open>\<^verbatim>\<open>random_loc\<close> returns as soon as a drawn cell is free: on a grid with a cell it
  returns whenever one of the cells it is given to draw is unoccupied.\<close>

lemma random_loc_returns:
  "0 < grid_n s \<Longrightarrow> \<exists>c\<in>set cs. c \<notin> occupied s \<Longrightarrow> \<exists>c. random_loc s cs = Inr c"
  by (induction cs) auto

lemma random_loc_free: "random_loc s cs = Inr c \<Longrightarrow> c \<notin> occupied s \<and> c \<in> set cs"
  by (induction cs) (auto split: if_splits)

lemma activate_effect:
  assumes ok: "occupancy_ok s" and al: "allocated s" and mem: "a \<in> set (agents s)"
    and act: "activate repl s d a = Inr s1"
  shows "occupancy_ok s1 \<and> allocated s1 \<and>
         next_addr s \<le> next_addr s1 \<and>
         (\<forall>b. b \<noteq> a \<and> b < next_addr s \<longrightarrow>
            heap s1 b = heap s b \<and> (b \<in> set (agents s1) \<longleftrightarrow> b \<in> set (agents s))) \<and>
         (a \<in> set (agents s1) \<longleftrightarrow> \<not> dead (heap s1 a)) \<and>
         length (agents s1) =
           (if dead (heap s1 a) \<and> \<not> repl then length (agents s) - 1 else length (agents s))"
proof -
  from ok have da: "distinct (agents s)" and inj: "inj_on (loc_of s) (set (agents s))"
    and occ: "occupied s = loc_of s ` set (agents s)"
    by (simp_all add: occupancy_ok_alt)
  from al have lt: "\<And>b. b \<in> set (agents s) \<Longrightarrow> b < next_addr s"
    by (simp add: allocated_def list_all_iff)
  from act obtain r where rel: "release s a = Inr r"
    by (auto simp: activate_def split: sum.splits)
  then have r: "r = s\<lparr>occupied := occupied s - {loc_of s a}\<rparr>"
    by (auto simp: release_def Let_def loc_of_def split: if_splits)
  from act rel obtain s2 where ast: "agent_step r (kernel d) a = Inr s2"
    and st: "settle repl s2 d a = Inr s1"
    by (auto simp: activate_def split: sum.splits)
  from agent_step_frame[OF ast] have f2: "agents s2 = agents s" "next_addr s2 = next_addr s"
    "occupied s2 = occupied s - {loc_of s a}" "\<And>b. b \<noteq> a \<Longrightarrow> heap s2 b = heap s b"
    by (simp_all add: r)
  have o2: "occupied s2 = loc_of s ` (set (agents s) - {a})"
    unfolding f2(3) occ using inj mem by (auto simp: inj_on_def)
  have l2: "\<And>b. b \<noteq> a \<Longrightarrow> loc_of s2 b = loc_of s b"
    by (simp add: loc_of_def f2(4))
  have free: "loc_of s2 a \<notin> occupied s2"
    using agent_step_dest[OF ast] by (auto simp: r f2(3) loc_of_def)
  have inj2: "inj_on (loc_of s2) (set (agents s) - {a})"
    using inj l2 by (auto simp: inj_on_def)
  have o2': "occupied s2 = loc_of s2 ` (set (agents s) - {a})"
    unfolding o2 using l2 by (auto simp: image_iff)
  show ?thesis
  proof (cases "dead (heap s2 a)")
    case False
    with st have s1: "s1 = s2\<lparr>occupied := insert (loc_of s2 a) (occupied s2)\<rparr>"
      by (auto simp: settle_def dead_def loc_of_def)
    have k: "loc_of s1 = loc_of s2" by (simp add: s1 loc_of_def fun_eq_iff)
    have "inj_on (loc_of s2) (insert a (set (agents s) - {a}))"
      using inj2 free o2' by (subst inj_on_insert) auto
    moreover have "insert a (set (agents s) - {a}) = set (agents s)" using mem by auto
    ultimately have i1: "inj_on (loc_of s2) (set (agents s))" by simp
    have "occupied s1 = insert (loc_of s2 a) (loc_of s2 ` (set (agents s) - {a}))"
      by (simp only: s1 o2') simp
    then have oc1: "occupied s1 = loc_of s2 ` set (agents s)"
      using mem by auto
    have ok1: "occupancy_ok s1"
      unfolding occupancy_ok_alt k using da i1 oc1 by (simp add: s1 f2)
    have al1: "allocated s1" using al by (simp add: allocated_def s1 f2)
    have h1: "heap s1 = heap s2" by (simp add: s1)
    show ?thesis
      using ok1 al1 False mem by (simp add: h1 f2 s1)
  next
    case True
    with st mem have inl: "a \<in> set (agents s2)" by (simp add: f2)
    define s3 where "s3 = s2\<lparr>agents := remove1 a (agents s2)\<rparr>"
    have ag3: "set (agents s3) = set (agents s) - {a}" "distinct (agents s3)"
      "length (agents s3) = length (agents s) - 1"
      using da mem by (simp_all add: s3_def f2 length_remove1)
    have k3: "loc_of s3 = loc_of s2" by (simp add: s3_def loc_of_def fun_eq_iff)
    have ok3: "occupancy_ok s3"
      unfolding occupancy_ok_alt k3 ag3(1) using ag3(2) inj2 o2' by (simp add: s3_def)
    have al3: "allocated s3"
      unfolding allocated_def list_all_iff ag3(1) using lt by (simp add: s3_def f2)
    show ?thesis
    proof (cases repl)
      case False
      with st True inl have s1: "s1 = s3"
        by (simp add: settle_def dead_def[symmetric] s3_def Let_def)
      show ?thesis
        unfolding s1 using ok3 al3 True False ag3 da
        by (auto simp: s3_def f2)
    next
      case repl: True
      with st True inl have ad: "add_agent s3 (spawn_cells d) (spawn_traits d) = Inr s1"
        by (simp add: settle_def dead_def[symmetric] s3_def Let_def)
      then obtain c where rl: "random_loc s3 (spawn_cells d) = Inr c"
        by (auto simp: add_agent_def split: sum.splits)
      define na where "na = next_addr s"
      from ad rl have s1: "s1 = s3\<lparr>agents := agents s3 @ [na],
                     heap := (heap s3)(na := Agent c (spawn_traits d)),
                     next_addr := Suc na,
                     occupied := insert c (occupied s3)\<rparr>"
        by (simp add: add_agent_def Let_def na_def s3_def f2)
      have cf: "c \<notin> occupied s3" using random_loc_free[OF rl] by simp
      have nn: "na \<notin> set (agents s)" "na \<noteq> a" using lt mem by (auto simp: na_def)
      have l1: "\<And>b. b \<noteq> na \<Longrightarrow> loc_of s1 b = loc_of s2 b" "loc_of s1 na = c"
        by (simp_all add: s1 loc_of_def s3_def Agent_def)
      have l1': "\<And>b. b \<in> set (agents s) - {a} \<Longrightarrow> loc_of s1 b = loc_of s2 b"
        using l1(1) nn(1) by (metis DiffD1)
      have im: "loc_of s1 ` (set (agents s) - {a}) = loc_of s2 ` (set (agents s) - {a})"
        using l1' by (rule image_cong[OF refl])
      have inj1: "inj_on (loc_of s1) (insert na (set (agents s) - {a}))"
      proof (subst inj_on_insert, intro conjI)
        show "inj_on (loc_of s1) (set (agents s) - {a})"
          using inj2 inj_on_cong[OF l1', of "set (agents s) - {a}" "\<lambda>b. b"] by blast
        have "set (agents s) - {a} - {na} = set (agents s) - {a}" using nn by auto
        then show "loc_of s1 na \<notin> loc_of s1 ` (set (agents s) - {a} - {na})"
          using cf by (simp add: l1(2) im s3_def o2')
      qed
      have "occupied s1 = insert c (loc_of s2 ` (set (agents s) - {a}))"
        using o2' by (simp add: s1 s3_def)
      then have oc1: "occupied s1 = loc_of s1 ` (insert na (set (agents s) - {a}))"
        by (simp add: l1(2) im)
      have ok1: "occupancy_ok s1"
        unfolding occupancy_ok_alt using inj1 oc1 ag3 nn by (simp add: s1)
      have al1: "allocated s1"
        using lt by (auto simp: allocated_def list_all_iff s1 ag3(1) na_def less_Suc_eq)
      have h1: "heap s1 a = heap s2 a" using nn by (simp add: s1 s3_def)
      have mem1: "a \<notin> set (agents s1)" using nn ag3(1) by (simp add: s1)
      have len1: "length (agents s1) = length (agents s)"
        using ag3(3) mem by (cases "agents s") (simp_all add: s1)
      have fr: "\<forall>b. b \<noteq> a \<and> b < next_addr s \<longrightarrow>
            heap s1 b = heap s b \<and> (b \<in> set (agents s1) \<longleftrightarrow> b \<in> set (agents s))"
        using ag3(1) by (auto simp: s1 s3_def f2 na_def)
      show ?thesis
        using ok1 al1 True repl h1 mem1 len1 fr by (simp add: s1 na_def)
    qed
  qed
qed

section \<open>A whole step\<close>

lemma activate_all_effect:
  assumes "occupancy_ok s" and "allocated s" and "distinct as" and "set as \<subseteq> set (agents s)"
    and "activate_all repl rnd as s = Inr s1"
  shows "occupancy_ok s1 \<and> allocated s1 \<and> next_addr s \<le> next_addr s1 \<and>
    (\<forall>b. b \<notin> set as \<and> b < next_addr s \<longrightarrow>
       heap s1 b = heap s b \<and> (b \<in> set (agents s1) \<longleftrightarrow> b \<in> set (agents s))) \<and>
    (\<forall>a\<in>set as. a \<in> set (agents s1) \<longleftrightarrow> \<not> dead (heap s1 a)) \<and>
    length (agents s1) + (if repl then 0 else length (filter (\<lambda>a. dead (heap s1 a)) as))
      = length (agents s)"
  using assms
proof (induction as arbitrary: s)
  case Nil
  then show ?case by simp
next
  case (Cons a as)
  from Cons.prems(5) obtain s2 where act: "activate repl s (rnd a) a = Inr s2"
    and rest: "activate_all repl rnd as s2 = Inr s1"
    by (auto split: sum.splits)
  from Cons.prems have mem: "a \<in> set (agents s)" and na: "a \<notin> set as" and da: "distinct as"
    and sub: "set as \<subseteq> set (agents s)"
    by auto
  from Cons.prems(2) have lt: "\<And>b. b \<in> set (agents s) \<Longrightarrow> b < next_addr s"
    by (simp add: allocated_def list_all_iff)
  note e = activate_effect[OF Cons.prems(1,2) mem act]
  from e have ok2: "occupancy_ok s2" and al2: "allocated s2" and nx2: "next_addr s \<le> next_addr s2"
    and fr2: "\<And>b. b \<noteq> a \<Longrightarrow> b < next_addr s \<Longrightarrow>
               heap s2 b = heap s b \<and> (b \<in> set (agents s2) \<longleftrightarrow> b \<in> set (agents s))"
    and m2: "a \<in> set (agents s2) \<longleftrightarrow> \<not> dead (heap s2 a)"
    and len2: "length (agents s2) =
           (if dead (heap s2 a) \<and> \<not> repl then length (agents s) - 1 else length (agents s))"
    by blast+
  have sub2: "set as \<subseteq> set (agents s2)"
  proof
    fix b assume b: "b \<in> set as"
    with na sub have "b \<noteq> a" "b \<in> set (agents s)" by auto
    with fr2[of b] lt[of b] show "b \<in> set (agents s2)" by simp
  qed
  note ih = Cons.IH[OF ok2 al2 da sub2 rest]
  from ih have ok1: "occupancy_ok s1" and al1: "allocated s1" and nx1: "next_addr s2 \<le> next_addr s1"
    and fr1: "\<And>b. b \<notin> set as \<Longrightarrow> b < next_addr s2 \<Longrightarrow>
               heap s1 b = heap s2 b \<and> (b \<in> set (agents s1) \<longleftrightarrow> b \<in> set (agents s2))"
    and m1: "\<And>b. b \<in> set as \<Longrightarrow> b \<in> set (agents s1) \<longleftrightarrow> \<not> dead (heap s1 b)"
    and len1: "length (agents s1) + (if repl then 0 else length (filter (\<lambda>a. dead (heap s1 a)) as))
      = length (agents s2)"
    by blast+
  have a2: "a < next_addr s2" using lt[OF mem] nx2 by simp
  have ha: "heap s1 a = heap s2 a" and ma: "a \<in> set (agents s1) \<longleftrightarrow> a \<in> set (agents s2)"
    using fr1[OF na a2] by simp_all
  have fr: "\<forall>b. b \<notin> set (a # as) \<and> b < next_addr s \<longrightarrow>
       heap s1 b = heap s b \<and> (b \<in> set (agents s1) \<longleftrightarrow> b \<in> set (agents s))"
  proof (intro allI impI)
    fix b assume b: "b \<notin> set (a # as) \<and> b < next_addr s"
    then have "b \<noteq> a" "b \<notin> set as" "b < next_addr s" "b < next_addr s2" using nx2 by auto
    with fr2[of b] fr1[of b]
    show "heap s1 b = heap s b \<and> (b \<in> set (agents s1) \<longleftrightarrow> b \<in> set (agents s))" by simp
  qed
  have mm: "\<forall>b\<in>set (a # as). b \<in> set (agents s1) \<longleftrightarrow> \<not> dead (heap s1 b)"
    using m1 m2 ha ma by auto
  have pos: "0 < length (agents s)" using mem by (cases "agents s") auto
  have len: "length (agents s1) + (if repl then 0 else length (filter (\<lambda>a. dead (heap s1 a)) (a # as)))
      = length (agents s)"
    using len1 len2 ha pos by (auto split: if_splits)
  have nx: "next_addr s \<le> next_addr s1" using nx1 nx2 by simp
  from ok1 al1 nx fr mm len show ?case by blast
qed

lemma step_effect:
  assumes ok: "occupancy_ok s" and al: "allocated s" and p: "is_perm p (length (agents s))"
    and st: "step s p rnd = Inr (k, s1)"
  shows "occupancy_ok s1 \<and> allocated s1 \<and> k = length (agents s1) \<and>
    next_addr s \<le> next_addr s1 \<and>
    (\<forall>a\<in>set (agents s). a \<in> set (agents s1) \<longleftrightarrow> \<not> dead (heap s1 a)) \<and>
    length (agents s1) + (if replacing s then 0 else length (filter (\<lambda>a. dead (heap s1 a)) (agents s)))
      = length (agents s)"
proof -
  define order where "order = shuffle_by p (agents s)"
  from ok have da: "distinct (agents s)" by (simp add: occupancy_ok_alt)
  have d: "distinct order" unfolding order_def using p da by (rule shuffle_by_distinct)
  have se: "set order = set (agents s)" unfolding order_def using p by (rule shuffle_by_set)
  have ms: "mset order = mset (agents s)" unfolding order_def using p by (rule shuffle_by_mset)
  from st obtain s2 where run: "activate_all (replacing s) rnd order s = Inr s2"
    and s1: "s1 = grow (s2\<lparr>agent_count_seq := agent_count_seq s2 @ [length (agents s2)]\<rparr>)"
    and k: "k = length (agents s1)"
    by (auto simp: step_def Let_def replacing_def order_def split: sum.splits)
  have f: "agents s1 = agents s2" "heap s1 = heap s2" "occupied s1 = occupied s2"
    "next_addr s1 = next_addr s2"
    by (simp_all add: s1 grow_def Let_def)
  have l: "locs_of s1 = locs_of s2" by (simp add: locs_of_def loc_of_def f)
  have se': "set order \<subseteq> set (agents s)" using se by simp
  note e = activate_all_effect[OF ok al d se' run]
  have fl: "length (filter (\<lambda>a. dead (heap s2 a)) order) = length (filter (\<lambda>a. dead (heap s2 a)) (agents s))"
    using ms by (metis mset_filter size_mset)
  have ok1: "occupancy_ok s1" using e by (simp add: occupancy_ok_def l f)
  have al1: "allocated s1" using e by (simp add: allocated_def f)
  from e have len: "length (agents s2) +
      (if replacing s then 0 else length (filter (\<lambda>a. dead (heap s2 a)) (agents s))) = length (agents s)"
    by (simp only: fl)
  from e have nx: "next_addr s \<le> next_addr s2"
    and mm: "\<forall>a\<in>set (agents s). a \<in> set (agents s2) \<longleftrightarrow> \<not> dead (heap s2 a)"
    by (simp_all add: se)
  show ?thesis
    unfolding f using ok1 al1 k len nx mm by (simp add: f)
qed

lemma construct_inv:
  assumes "is_perm p (length (region n ps))" and "construct n ps p trs = Inr s"
  shows "occupancy_ok s \<and> allocated s"
proof -
  from assms(2) have "agents s = [0..<requested ps]" "next_addr s = requested ps"
    by (auto simp: construct_unfold Let_def split: if_splits)
  then have "allocated s" by (simp add: allocated_def list_all_iff)
  moreover have "occupancy_ok s"
    using construct_locs[OF assms]
    by (simp add: occupancy_ok_def locs_of_def loc_of_def[abs_def])
  ultimately show ?thesis by simp
qed

lemma reachable_inv: "reachable s \<Longrightarrow> occupancy_ok s \<and> allocated s"
proof (induction rule: reachable.induct)
  case (constructed p n ps trs s)
  then show ?case by (rule construct_inv)
next
  case (stepped s p rnd k s1)
  then show ?case using step_effect[of s p rnd k s1] by simp
qed

text \<open>
  Claim C1. In every engine reachable from construction by completed calls of
  \<^verbatim>\<open>step\<close>, whatever was drawn at random, the occupied set is the set of the live
  agents' locations, it has as many elements as there are live agents, and no two
  live agents share a location.
\<close>

theorem occupancy_invariant:
  assumes "reachable s"
  shows "occupied s = set (locs_of s) \<and> card (occupied s) = length (agents s) \<and>
         distinct (locs_of s)"
proof -
  from reachable_inv[OF assms] have o: "occupied s = set (locs_of s)" and d: "distinct (locs_of s)"
    by (simp_all add: occupancy_ok_def)
  from d have "card (set (locs_of s)) = length (locs_of s)" by (rule distinct_card)
  with o d show ?thesis by (simp add: locs_of_def)
qed


theorem occupancy_invariant_witness:
  "\<exists>s k s1. construct 2 (trio_params True) [0, 3, 1, 2] trio_traits = Inr s \<and>
     step s [0, 1, 2] (\<lambda>_. sample_draw) = Inr (k, s1) \<and> reachable s1 \<and>
     agents s1 = [1, 2, 3] \<and> locs_of s1 = [(1, 0), (1, 1), (0, 0)] \<and>
     occupied s1 = set (locs_of s1) \<and> card (occupied s1) = length (agents s1) \<and>
     distinct (locs_of s1)"
proof -
  have "case construct 2 (trio_params True) [0, 3, 1, 2] trio_traits of Inl e \<Rightarrow> False
        | Inr s \<Rightarrow> is_perm [0, 1, 2] (length (agents s)) \<and>
            (case step s [0, 1, 2] (\<lambda>_. sample_draw) of Inl e \<Rightarrow> False
             | Inr r \<Rightarrow> agents (snd r) = [1, 2, 3] \<and> locs_of (snd r) = [(1, 0), (1, 1), (0, 0)])"
    by code_simp
  then obtain s where s: "construct 2 (trio_params True) [0, 3, 1, 2] trio_traits = Inr s"
    and p: "is_perm [0, 1, 2] (length (agents s))"
    and c: "case step s [0, 1, 2] (\<lambda>_. sample_draw) of Inl e \<Rightarrow> False
             | Inr r \<Rightarrow> agents (snd r) = [1, 2, 3] \<and> locs_of (snd r) = [(1, 0), (1, 1), (0, 0)]"
    by (blast dest: Inr_caseD)
  from c obtain k s1 where t: "step s [0, 1, 2] (\<lambda>_. sample_draw) = Inr (k, s1)"
    and v: "agents s1 = [1, 2, 3]" "locs_of s1 = [(1, 0), (1, 1), (0, 0)]"
    by (cases "step s [0, 1, 2] (\<lambda>_. sample_draw)") auto
  have q: "is_perm [0, 3, 1, 2] (length (region 2 (trio_params True)))" by code_simp
  have "reachable s" using q s by (rule reachable.constructed)
  then have r: "reachable s1" using p t by (rule reachable.stepped)
  from occupancy_invariant[OF r] s t r v show ?thesis by blast
qed

section \<open>Deaths and replacements\<close>

lemma activate_all_append:
  "activate_all repl rnd (xs @ ys) s =
     (case activate_all repl rnd xs s of Inl e \<Rightarrow> Inl e | Inr s2 \<Rightarrow> activate_all repl rnd ys s2)"
  by (induction xs arbitrary: s) (auto split: sum.splits)

lemma activate_all_at:
  assumes ok: "occupancy_ok s" and al: "allocated s" and d: "distinct (pre @ a # post)"
    and sub: "set (pre @ a # post) \<subseteq> set (agents s)"
    and run: "activate_all repl rnd (pre @ a # post) s = Inr s1"
  shows "\<exists>s2 s3. activate_all repl rnd pre s = Inr s2 \<and> activate repl s2 (rnd a) a = Inr s3 \<and>
           activate_all repl rnd post s3 = Inr s1 \<and>
           occupancy_ok s2 \<and> allocated s2 \<and> a \<in> set (agents s2) \<and> heap s2 a = heap s a \<and>
           next_addr s \<le> next_addr s2 \<and> next_addr s2 \<le> next_addr s3 \<and>
           occupancy_ok s3 \<and> allocated s3 \<and> set post \<subseteq> set (agents s3) \<and>
           (\<forall>b. b \<notin> set post \<and> b < next_addr s3 \<longrightarrow>
              heap s1 b = heap s3 b \<and> (b \<in> set (agents s1) \<longleftrightarrow> b \<in> set (agents s3)))"
proof -
  from run obtain s2 s3 where r1: "activate_all repl rnd pre s = Inr s2"
    and r2: "activate repl s2 (rnd a) a = Inr s3" and r3: "activate_all repl rnd post s3 = Inr s1"
    by (auto simp: activate_all_append split: sum.splits)
  from al have lt: "\<And>b. b \<in> set (agents s) \<Longrightarrow> b < next_addr s"
    by (simp add: allocated_def list_all_iff)
  from d sub have dp: "distinct pre" and sp: "set pre \<subseteq> set (agents s)" by auto
  note e1 = activate_all_effect[OF ok al dp sp r1]
  from e1 have ok2: "occupancy_ok s2" and al2: "allocated s2" and nx2: "next_addr s \<le> next_addr s2"
    and fr2: "\<And>b. b \<notin> set pre \<Longrightarrow> b < next_addr s \<Longrightarrow>
               heap s2 b = heap s b \<and> (b \<in> set (agents s2) \<longleftrightarrow> b \<in> set (agents s))"
    by blast+
  from d sub have a0: "a \<notin> set pre" "a \<in> set (agents s)" by auto
  with fr2[of a] lt[of a] have mem2: "a \<in> set (agents s2)" and h2: "heap s2 a = heap s a" by simp_all
  note e2 = activate_effect[OF ok2 al2 mem2 r2]
  from e2 have ok3: "occupancy_ok s3" and al3: "allocated s3" and nx3: "next_addr s2 \<le> next_addr s3"
    and fr3: "\<And>b. b \<noteq> a \<Longrightarrow> b < next_addr s2 \<Longrightarrow>
               heap s3 b = heap s2 b \<and> (b \<in> set (agents s3) \<longleftrightarrow> b \<in> set (agents s2))"
    by blast+
  have sub3: "set post \<subseteq> set (agents s3)"
  proof
    fix b assume b: "b \<in> set post"
    with d sub have b0: "b \<noteq> a" "b \<notin> set pre" "b \<in> set (agents s)" by auto
    with fr2[of b] lt[of b] have "b \<in> set (agents s2)" by simp
    moreover have "b < next_addr s2" using lt[of b] b0 nx2 by simp
    ultimately show "b \<in> set (agents s3)" using fr3[of b] b0 by simp
  qed
  from d have dpost: "distinct post" by simp
  note e3 = activate_all_effect[OF ok3 al3 dpost sub3 r3]
  from e3 have fr: "\<forall>b. b \<notin> set post \<and> b < next_addr s3 \<longrightarrow>
              heap s1 b = heap s3 b \<and> (b \<in> set (agents s1) \<longleftrightarrow> b \<in> set (agents s3))"
    by blast
  from r1 r2 r3 ok2 al2 mem2 h2 nx2 nx3 ok3 al3 sub3 fr show ?thesis by blast
qed

lemma activate_spawn:
  assumes ok: "occupancy_ok s" and al: "allocated s" and mem: "a \<in> set (agents s)"
    and act: "activate repl s d a = Inr s1" and b: "next_addr s \<le> b" "b < next_addr s1"
  shows "repl \<and> b = next_addr s \<and> b \<in> set (agents s1) \<and> a \<notin> set (agents s1) \<and>
         (\<exists>c\<in>set (spawn_cells d). heap s1 b = Agent c (spawn_traits d))"
proof -
  from act obtain r where rel: "release s a = Inr r"
    by (auto simp: activate_def split: sum.splits)
  from act rel obtain s2 where ast: "agent_step r (kernel d) a = Inr s2"
    and st: "settle repl s2 d a = Inr s1"
    by (auto simp: activate_def split: sum.splits)
  from release_frame[OF rel] agent_step_frame[OF ast]
  have f2: "agents s2 = agents s" "next_addr s2 = next_addr s" by simp_all
  from al mem have lt: "a < next_addr s" by (simp add: allocated_def list_all_iff)
  show ?thesis
  proof (cases "dead (heap s2 a) \<and> repl")
    case False
    with st have "next_addr s1 = next_addr s"
      by (auto simp: settle_def dead_def Let_def f2 split: if_splits)
    with b show ?thesis by simp
  next
    case True
    with st mem have ad: "add_agent (s2\<lparr>agents := remove1 a (agents s2)\<rparr>) (spawn_cells d) (spawn_traits d) = Inr s1"
      by (simp add: settle_def dead_def[symmetric] Let_def f2)
    then obtain c where rl: "random_loc (s2\<lparr>agents := remove1 a (agents s2)\<rparr>) (spawn_cells d) = Inr c"
      by (auto simp: add_agent_def split: sum.splits)
    from ad rl have s1: "s1 = (s2\<lparr>agents := remove1 a (agents s2)\<rparr>)\<lparr>
                     agents := remove1 a (agents s2) @ [next_addr s],
                     heap := (heap s2)(next_addr s := Agent c (spawn_traits d)),
                     next_addr := Suc (next_addr s),
                     occupied := insert c (occupied s2)\<rparr>"
      by (simp add: add_agent_def Let_def f2)
    from s1 b have be: "b = next_addr s" by simp
    from ok have "distinct (agents s)" by (simp add: occupancy_ok_alt)
    then have "a \<notin> set (agents s1)" using lt by (simp add: s1 f2)
    moreover have "c \<in> set (spawn_cells d)" using random_loc_free[OF rl] by simp
    ultimately show ?thesis using True be by (auto simp: s1)
  qed
qed

section \<open>Two sample runs\<close>

lemma trio_run_without_replace:
  "\<exists>s k s1. construct 2 (trio_params False) [0, 3, 1, 2] trio_traits = Inr s \<and> reachable s \<and>
     is_perm [0, 1, 2] (length (agents s)) \<and>
     step s [0, 1, 2] (\<lambda>_. sample_draw) = Inr (k, s1) \<and> \<not> replacing s \<and>
     agents s = [0, 1, 2] \<and> locs_of s = [(0, 0), (1, 1), (0, 1)] \<and>
     shuffle_by [0, 1, 2] (agents s) = [0, 1, 2] \<and>
     agents s1 = [1, 2] \<and> locs_of s1 = [(1, 0), (1, 1)] \<and> k = 2 \<and>
     map (\<lambda>a. dead (heap s1 a)) (agents s) = [True, False, False] \<and>
     harvest_sites False (\<lambda>_. sample_draw) [0, 1, 2] s =
       [(0, (1, 0), {(1, 1), (0, 1)}), (1, (1, 0), {(0, 1)}), (2, (1, 1), {(1, 0)})]"
proof -
  have "case construct 2 (trio_params False) [0, 3, 1, 2] trio_traits of Inl e \<Rightarrow> False
        | Inr s \<Rightarrow> is_perm [0, 1, 2] (length (agents s)) \<and> \<not> replacing s \<and>
            agents s = [0, 1, 2] \<and> locs_of s = [(0, 0), (1, 1), (0, 1)] \<and>
            shuffle_by [0, 1, 2] (agents s) = [0, 1, 2] \<and>
            harvest_sites False (\<lambda>_. sample_draw) [0, 1, 2] s =
              [(0, (1, 0), {(1, 1), (0, 1)}), (1, (1, 0), {(0, 1)}), (2, (1, 1), {(1, 0)})] \<and>
            (case step s [0, 1, 2] (\<lambda>_. sample_draw) of Inl e \<Rightarrow> False
             | Inr r \<Rightarrow> fst r = 2 \<and> agents (snd r) = [1, 2] \<and> locs_of (snd r) = [(1, 0), (1, 1)] \<and>
                 map (\<lambda>a. dead (heap (snd r) a)) (agents s) = [True, False, False])"
    by code_simp
  then obtain s where s: "construct 2 (trio_params False) [0, 3, 1, 2] trio_traits = Inr s"
    and f: "is_perm [0, 1, 2] (length (agents s))" "\<not> replacing s"
      "agents s = [0, 1, 2]" "locs_of s = [(0, 0), (1, 1), (0, 1)]"
      "shuffle_by [0, 1, 2] (agents s) = [0, 1, 2]"
      "harvest_sites False (\<lambda>_. sample_draw) [0, 1, 2] s =
              [(0, (1, 0), {(1, 1), (0, 1)}), (1, (1, 0), {(0, 1)}), (2, (1, 1), {(1, 0)})]"
    and c: "case step s [0, 1, 2] (\<lambda>_. sample_draw) of Inl e \<Rightarrow> False
             | Inr r \<Rightarrow> fst r = 2 \<and> agents (snd r) = [1, 2] \<and> locs_of (snd r) = [(1, 0), (1, 1)] \<and>
                 map (\<lambda>a. dead (heap (snd r) a)) (agents s) = [True, False, False]"
    by (blast dest: Inr_caseD)
  from c obtain k s1 where t: "step s [0, 1, 2] (\<lambda>_. sample_draw) = Inr (k, s1)"
    and v: "k = 2" "agents s1 = [1, 2]" "locs_of s1 = [(1, 0), (1, 1)]"
      "map (\<lambda>a. dead (heap s1 a)) (agents s) = [True, False, False]"
    by (cases "step s [0, 1, 2] (\<lambda>_. sample_draw)") auto
  have q: "is_perm [0, 3, 1, 2] (length (region 2 (trio_params False)))" by code_simp
  have r: "reachable s" using q s by (rule reachable.constructed)
  show ?thesis
    using s r f t v by (intro exI[of _ s] exI[of _ k] exI[of _ s1] conjI)
qed

lemma trio_run_with_replace:
  "\<exists>s k s1. construct 2 (trio_params True) [0, 3, 1, 2] trio_traits = Inr s \<and> reachable s \<and>
     is_perm [0, 1, 2] (length (agents s)) \<and>
     step s [0, 1, 2] (\<lambda>_. sample_draw) = Inr (k, s1) \<and> replacing s \<and>
     agents s = [0, 1, 2] \<and> shuffle_by [0, 1, 2] (agents s) = [0, 1, 2] \<and>
     agents s1 = [1, 2, 3] \<and> locs_of s1 = [(1, 0), (1, 1), (0, 0)] \<and> k = 3 \<and>
     map (\<lambda>a. dead (heap s1 a)) (agents s) = [True, False, False] \<and>
     heap s1 3 = Agent (0, 0) sample_traits"
proof -
  have "case construct 2 (trio_params True) [0, 3, 1, 2] trio_traits of Inl e \<Rightarrow> False
        | Inr s \<Rightarrow> is_perm [0, 1, 2] (length (agents s)) \<and> replacing s \<and>
            agents s = [0, 1, 2] \<and> shuffle_by [0, 1, 2] (agents s) = [0, 1, 2] \<and>
            (case step s [0, 1, 2] (\<lambda>_. sample_draw) of Inl e \<Rightarrow> False
             | Inr r \<Rightarrow> fst r = 3 \<and> agents (snd r) = [1, 2, 3] \<and>
                 locs_of (snd r) = [(1, 0), (1, 1), (0, 0)] \<and>
                 map (\<lambda>a. dead (heap (snd r) a)) (agents s) = [True, False, False] \<and>
                 heap (snd r) 3 = Agent (0, 0) sample_traits)"
    by code_simp
  then obtain s where s: "construct 2 (trio_params True) [0, 3, 1, 2] trio_traits = Inr s"
    and f: "is_perm [0, 1, 2] (length (agents s))" "replacing s"
      "agents s = [0, 1, 2]" "shuffle_by [0, 1, 2] (agents s) = [0, 1, 2]"
    and c: "case step s [0, 1, 2] (\<lambda>_. sample_draw) of Inl e \<Rightarrow> False
             | Inr r \<Rightarrow> fst r = 3 \<and> agents (snd r) = [1, 2, 3] \<and>
                 locs_of (snd r) = [(1, 0), (1, 1), (0, 0)] \<and>
                 map (\<lambda>a. dead (heap (snd r) a)) (agents s) = [True, False, False] \<and>
                 heap (snd r) 3 = Agent (0, 0) sample_traits"
    by (blast dest: Inr_caseD)
  from c obtain k s1 where t: "step s [0, 1, 2] (\<lambda>_. sample_draw) = Inr (k, s1)"
    and v: "k = 3" "agents s1 = [1, 2, 3]" "locs_of s1 = [(1, 0), (1, 1), (0, 0)]"
      "map (\<lambda>a. dead (heap s1 a)) (agents s) = [True, False, False]"
      "heap s1 3 = Agent (0, 0) sample_traits"
    by (cases "step s [0, 1, 2] (\<lambda>_. sample_draw)") auto
  have q: "is_perm [0, 3, 1, 2] (length (region 2 (trio_params True)))" by code_simp
  have r: "reachable s" using q s by (rule reachable.constructed)
  show ?thesis
    using s r f t v by (intro exI[of _ s] exI[of _ k] exI[of _ s1] conjI)
qed

lemma activate_all_new:
  assumes "occupancy_ok s" and "allocated s" and "distinct as" and "set as \<subseteq> set (agents s)"
    and "activate_all repl rnd as s = Inr s1" and "next_addr s \<le> b" and "b < next_addr s1"
  shows "repl \<and> b \<in> set (agents s1) \<and>
         (\<exists>a\<in>set as. \<exists>c\<in>set (spawn_cells (rnd a)). heap s1 b = Agent c (spawn_traits (rnd a)))"
  using assms
proof (induction as arbitrary: s)
  case Nil
  then show ?case by simp
next
  case (Cons a as)
  from Cons.prems(5) obtain s2 where act: "activate repl s (rnd a) a = Inr s2"
    and rest: "activate_all repl rnd as s2 = Inr s1"
    by (auto split: sum.splits)
  from Cons.prems have mem: "a \<in> set (agents s)" and na: "a \<notin> set as" and da: "distinct as"
    and sub: "set as \<subseteq> set (agents s)"
    by auto
  from Cons.prems(2) have lt: "\<And>x. x \<in> set (agents s) \<Longrightarrow> x < next_addr s"
    by (simp add: allocated_def list_all_iff)
  note e = activate_effect[OF Cons.prems(1,2) mem act]
  from e have ok2: "occupancy_ok s2" and al2: "allocated s2" and nx2: "next_addr s \<le> next_addr s2"
    and fr2: "\<And>x. x \<noteq> a \<Longrightarrow> x < next_addr s \<Longrightarrow>
               heap s2 x = heap s x \<and> (x \<in> set (agents s2) \<longleftrightarrow> x \<in> set (agents s))"
    by blast+
  have sub2: "set as \<subseteq> set (agents s2)"
  proof
    fix x assume x: "x \<in> set as"
    with na sub have "x \<noteq> a" "x \<in> set (agents s)" by auto
    with fr2[of x] lt[of x] show "x \<in> set (agents s2)" by simp
  qed
  show ?case
  proof (cases "b < next_addr s2")
    case True
    from activate_spawn[OF Cons.prems(1,2) mem act Cons.prems(6) True]
    obtain c where sp: "repl" "b \<in> set (agents s2)" "c \<in> set (spawn_cells (rnd a))"
      "heap s2 b = Agent c (spawn_traits (rnd a))"
      by blast
    have "b \<notin> set as" using sub lt Cons.prems(6) by (meson leD subsetD)
    with activate_all_effect[OF ok2 al2 da sub2 rest] True
    have "heap s1 b = heap s2 b" "b \<in> set (agents s1) \<longleftrightarrow> b \<in> set (agents s2)" by blast+
    with sp show ?thesis by auto
  next
    case False
    then have "next_addr s2 \<le> b" by simp
    from Cons.IH[OF ok2 al2 da sub2 rest this Cons.prems(7)] show ?thesis by auto
  qed
qed

text \<open>
  Claim C5. For a completed step from a reachable engine: an agent of the step-start
  population is dead (reserve at most 0, or age above its lifespan) exactly when it is
  absent from the agent list when the step returns; with the replace option the
  population size is unchanged, and without it the size has decreased by the number
  of agents of the step-start population that died; the step returns the new size.
  The record of an agent when the step returns is the one it had right after its own
  activation, where its death was decided.
\<close>

theorem deaths_and_population:
  assumes "reachable s" and "is_perm p (length (agents s))" and "step s p rnd = Inr (k, s1)"
  shows "(\<forall>a\<in>set (agents s). dead (heap s1 a) \<longleftrightarrow> a \<notin> set (agents s1)) \<and>
    (replacing s \<longrightarrow> length (agents s1) = length (agents s)) \<and>
    (\<not> replacing s \<longrightarrow>
       length (agents s1) = length (agents s) - length (filter (\<lambda>a. dead (heap s1 a)) (agents s))) \<and>
    k = length (agents s1) \<and>
    (\<forall>pre a post. shuffle_by p (agents s) = pre @ a # post \<longrightarrow>
       (\<exists>s2 s3. activate_all (replacing s) rnd pre s = Inr s2 \<and>
          activate (replacing s) s2 (rnd a) a = Inr s3 \<and> heap s1 a = heap s3 a \<and>
          (dead (heap s3 a) \<longleftrightarrow> a \<notin> set (agents s3))))"
proof -
  from reachable_inv[OF assms(1)] have ok: "occupancy_ok s" and al: "allocated s" by simp_all
  note e = step_effect[OF ok al assms(2,3)]
  have a: "\<forall>a\<in>set (agents s). dead (heap s1 a) \<longleftrightarrow> a \<notin> set (agents s1)"
    using e by blast
  have b: "replacing s \<longrightarrow> length (agents s1) = length (agents s)"
    using e by auto
  have c: "\<not> replacing s \<longrightarrow>
       length (agents s1) = length (agents s) - length (filter (\<lambda>a. dead (heap s1 a)) (agents s))"
    using e by auto
  have k: "k = length (agents s1)" using e by simp
  have d: "\<exists>s2 s3. activate_all (replacing s) rnd pre s = Inr s2 \<and>
          activate (replacing s) s2 (rnd a) a = Inr s3 \<and> heap s1 a = heap s3 a \<and>
          (dead (heap s3 a) \<longleftrightarrow> a \<notin> set (agents s3))"
    if sp: "shuffle_by p (agents s) = pre @ a # post" for pre a post
  proof -
    from ok have da: "distinct (agents s)" by (simp add: occupancy_ok_alt)
    have dd: "distinct (pre @ a # post)"
      unfolding sp[symmetric] using assms(2) da by (rule shuffle_by_distinct)
    have ss: "set (pre @ a # post) \<subseteq> set (agents s)"
      unfolding sp[symmetric] using shuffle_by_set[OF assms(2)] by simp
    from assms(3) obtain s9 where run: "activate_all (replacing s) rnd (pre @ a # post) s = Inr s9"
      and h9: "heap s1 = heap s9"
      by (auto simp: step_def Let_def replacing_def sp grow_def split: sum.splits)
    from activate_all_at[OF ok al dd ss run] obtain s2 s3 where
      r: "activate_all (replacing s) rnd pre s = Inr s2" "activate (replacing s) s2 (rnd a) a = Inr s3"
      and i: "occupancy_ok s2" "allocated s2" "a \<in> set (agents s2)" "allocated s3"
        "set post \<subseteq> set (agents s3)" "next_addr s2 \<le> next_addr s3"
      and fr: "\<forall>b. b \<notin> set post \<and> b < next_addr s3 \<longrightarrow>
              heap s9 b = heap s3 b \<and> (b \<in> set (agents s9) \<longleftrightarrow> b \<in> set (agents s3))"
      by blast
    from i(2,3) have "a < next_addr s2" by (simp add: allocated_def list_all_iff)
    with i(6) have "a < next_addr s3" by simp
    moreover from dd have "a \<notin> set post" by simp
    ultimately have "heap s9 a = heap s3 a" using fr by blast
    moreover from activate_effect[OF i(1,2,3) r(2)] have "dead (heap s3 a) \<longleftrightarrow> a \<notin> set (agents s3)"
      by blast
    ultimately show ?thesis using r h9 by auto
  qed
  from a b c k d show ?thesis by blast
qed


theorem deaths_and_population_witness:
  "(\<exists>s k s1. reachable s \<and> is_perm [0, 1, 2] (length (agents s)) \<and>
      step s [0, 1, 2] (\<lambda>_. sample_draw) = Inr (k, s1) \<and> \<not> replacing s \<and>
      agents s = [0, 1, 2] \<and> filter (\<lambda>a. dead (heap s1 a)) (agents s) = [0] \<and>
      0 \<notin> set (agents s1) \<and> agents s1 = [1, 2] \<and> k = 2 \<and>
      length (agents s1) = length (agents s) - length (filter (\<lambda>a. dead (heap s1 a)) (agents s))) \<and>
   (\<exists>s k s1. reachable s \<and> is_perm [0, 1, 2] (length (agents s)) \<and>
      step s [0, 1, 2] (\<lambda>_. sample_draw) = Inr (k, s1) \<and> replacing s \<and>
      agents s = [0, 1, 2] \<and> filter (\<lambda>a. dead (heap s1 a)) (agents s) = [0] \<and>
      0 \<notin> set (agents s1) \<and> agents s1 = [1, 2, 3] \<and> k = 3 \<and>
      length (agents s1) = length (agents s))"
proof -
  from trio_run_without_replace obtain s k s1 where
    f: "reachable s" "is_perm [0, 1, 2] (length (agents s))"
      "step s [0, 1, 2] (\<lambda>_. sample_draw) = Inr (k, s1)" "\<not> replacing s"
      "agents s = [0, 1, 2]" "agents s1 = [1, 2]" "k = 2"
      "map (\<lambda>a. dead (heap s1 a)) (agents s) = [True, False, False]"
    by (elim exE conjE)
  from f(5,8) have d: "filter (\<lambda>a. dead (heap s1 a)) (agents s) = [0]" by simp
  from deaths_and_population[OF f(1,2,3)] f(4) d f(5)
  have g: "0 \<notin> set (agents s1)"
    "length (agents s1) = length (agents s) - length (filter (\<lambda>a. dead (heap s1 a)) (agents s))"
    by auto
  have a: "\<exists>s k s1. reachable s \<and> is_perm [0, 1, 2] (length (agents s)) \<and>
      step s [0, 1, 2] (\<lambda>_. sample_draw) = Inr (k, s1) \<and> \<not> replacing s \<and>
      agents s = [0, 1, 2] \<and> filter (\<lambda>a. dead (heap s1 a)) (agents s) = [0] \<and>
      0 \<notin> set (agents s1) \<and> agents s1 = [1, 2] \<and> k = 2 \<and>
      length (agents s1) = length (agents s) - length (filter (\<lambda>a. dead (heap s1 a)) (agents s))"
    using f d g by (intro exI[of _ s] exI[of _ k] exI[of _ s1] conjI)
  from trio_run_with_replace obtain s k s1 where
    f: "reachable s" "is_perm [0, 1, 2] (length (agents s))"
      "step s [0, 1, 2] (\<lambda>_. sample_draw) = Inr (k, s1)" "replacing s"
      "agents s = [0, 1, 2]" "agents s1 = [1, 2, 3]" "k = 3"
      "map (\<lambda>a. dead (heap s1 a)) (agents s) = [True, False, False]"
    by (elim exE conjE)
  from f(5,8) have d: "filter (\<lambda>a. dead (heap s1 a)) (agents s) = [0]" by simp
  from deaths_and_population[OF f(1,2,3)] f(4) d f(5)
  have g: "0 \<notin> set (agents s1)" "length (agents s1) = length (agents s)"
    by auto
  have b: "\<exists>s k s1. reachable s \<and> is_perm [0, 1, 2] (length (agents s)) \<and>
      step s [0, 1, 2] (\<lambda>_. sample_draw) = Inr (k, s1) \<and> replacing s \<and>
      agents s = [0, 1, 2] \<and> filter (\<lambda>a. dead (heap s1 a)) (agents s) = [0] \<and>
      0 \<notin> set (agents s1) \<and> agents s1 = [1, 2, 3] \<and> k = 3 \<and>
      length (agents s1) = length (agents s)"
    using f d g by (intro exI[of _ s] exI[of _ k] exI[of _ s1] conjI)
  from a b show ?thesis by (rule conjI)
qed

text \<open>
  Claim C10. For a completed step from a reachable engine: every agent of the final
  list that is not of the step-start population is a replacement; it is not in the
  activation order of the step, and its record when the step returns is the record
  its constructor built (age 0, the drawn reserve, the cell found by
  \<^verbatim>\<open>random_loc\<close>). More precisely, an agent allocated during the activation of \<open>a\<close>
  has, when the step returns, the record it had right after that activation.
\<close>

theorem replacement_not_activated:
  assumes "reachable s" and "is_perm p (length (agents s))" and "step s p rnd = Inr (k, s1)"
  shows "(\<forall>b\<in>set (agents s1). b \<notin> set (agents s) \<longrightarrow>
            replacing s \<and> b \<notin> set (shuffle_by p (agents s)) \<and>
            (\<exists>a\<in>set (agents s). \<exists>c\<in>set (spawn_cells (rnd a)).
               heap s1 b = Agent c (spawn_traits (rnd a)))) \<and>
    (\<forall>pre a post. shuffle_by p (agents s) = pre @ a # post \<longrightarrow>
       (\<exists>s2 s3. activate_all (replacing s) rnd pre s = Inr s2 \<and>
          activate (replacing s) s2 (rnd a) a = Inr s3 \<and>
          (\<forall>b. next_addr s2 \<le> b \<and> b < next_addr s3 \<longrightarrow>
             replacing s \<and> b \<notin> set (agents s) \<and> b \<notin> set (shuffle_by p (agents s)) \<and>
             b \<in> set (agents s3) \<and> b \<in> set (agents s1) \<and> a \<notin> set (agents s1) \<and>
             heap s1 b = heap s3 b \<and>
             (\<exists>c\<in>set (spawn_cells (rnd a)). heap s3 b = Agent c (spawn_traits (rnd a))))))"
proof -
  from reachable_inv[OF assms(1)] have ok: "occupancy_ok s" and al: "allocated s" by simp_all
  from al have lt: "\<And>x. x \<in> set (agents s) \<Longrightarrow> x < next_addr s"
    by (simp add: allocated_def list_all_iff)
  define order where "order = shuffle_by p (agents s)"
  from ok have da: "distinct (agents s)" by (simp add: occupancy_ok_alt)
  have dd: "distinct order" unfolding order_def using assms(2) da by (rule shuffle_by_distinct)
  have se: "set order = set (agents s)" unfolding order_def using assms(2) by (rule shuffle_by_set)
  then have ss: "set order \<subseteq> set (agents s)" by simp
  from assms(3) obtain s9 where run: "activate_all (replacing s) rnd order s = Inr s9"
    and h9: "heap s1 = heap s9" "agents s1 = agents s9" "next_addr s1 = next_addr s9"
    by (auto simp: step_def Let_def replacing_def order_def grow_def split: sum.splits)
  note e9 = activate_all_effect[OF ok al dd ss run]
  have g: "replacing s \<and> b \<notin> set order \<and>
            (\<exists>a\<in>set (agents s). \<exists>c\<in>set (spawn_cells (rnd a)).
               heap s1 b = Agent c (spawn_traits (rnd a)))"
    if b: "b \<in> set (agents s1)" "b \<notin> set (agents s)" for b
  proof -
    have ge: "next_addr s \<le> b"
    proof (rule ccontr)
      assume "\<not> next_addr s \<le> b"
      then have "b < next_addr s" by simp
      moreover have "b \<notin> set order" using b(2) se by simp
      ultimately have "b \<in> set (agents s9) \<longleftrightarrow> b \<in> set (agents s)" using e9 by blast
      with b show False by (simp add: h9)
    qed
    from e9 have "allocated s9" by simp
    with b(1) have "b < next_addr s9" by (simp add: allocated_def list_all_iff h9)
    from activate_all_new[OF ok al dd ss run ge this] b(2) se
    show ?thesis by (auto simp: h9)
  qed
  have w: "\<exists>s2 s3. activate_all (replacing s) rnd pre s = Inr s2 \<and>
          activate (replacing s) s2 (rnd a) a = Inr s3 \<and>
          (\<forall>b. next_addr s2 \<le> b \<and> b < next_addr s3 \<longrightarrow>
             replacing s \<and> b \<notin> set (agents s) \<and> b \<notin> set order \<and>
             b \<in> set (agents s3) \<and> b \<in> set (agents s1) \<and> a \<notin> set (agents s1) \<and>
             heap s1 b = heap s3 b \<and>
             (\<exists>c\<in>set (spawn_cells (rnd a)). heap s3 b = Agent c (spawn_traits (rnd a))))"
    if sp: "order = pre @ a # post" for pre a post
  proof -
    from dd ss run have dd': "distinct (pre @ a # post)" and ss': "set (pre @ a # post) \<subseteq> set (agents s)"
      and run': "activate_all (replacing s) rnd (pre @ a # post) s = Inr s9"
      by (simp_all add: sp)
    from activate_all_at[OF ok al dd' ss' run'] obtain s2 s3 where
      r: "activate_all (replacing s) rnd pre s = Inr s2" "activate (replacing s) s2 (rnd a) a = Inr s3"
      and i: "occupancy_ok s2" "allocated s2" "a \<in> set (agents s2)" "allocated s3"
        "set post \<subseteq> set (agents s3)" "next_addr s \<le> next_addr s2" "next_addr s2 \<le> next_addr s3"
      and fr: "\<forall>b. b \<notin> set post \<and> b < next_addr s3 \<longrightarrow>
              heap s9 b = heap s3 b \<and> (b \<in> set (agents s9) \<longleftrightarrow> b \<in> set (agents s3))"
      by blast
    from i(2,3) have a2: "a < next_addr s2" by (simp add: allocated_def list_all_iff)
    from dd' have ap: "a \<notin> set post" by simp
    have "replacing s \<and> b \<notin> set (agents s) \<and> b \<notin> set order \<and>
             b \<in> set (agents s3) \<and> b \<in> set (agents s1) \<and> a \<notin> set (agents s1) \<and>
             heap s1 b = heap s3 b \<and>
             (\<exists>c\<in>set (spawn_cells (rnd a)). heap s3 b = Agent c (spawn_traits (rnd a)))"
      if b: "next_addr s2 \<le> b" "b < next_addr s3" for b
    proof -
      from activate_spawn[OF i(1,2,3) r(2) b]
      have sp3: "replacing s" "b \<in> set (agents s3)" "a \<notin> set (agents s3)"
        "\<exists>c\<in>set (spawn_cells (rnd a)). heap s3 b = Agent c (spawn_traits (rnd a))"
        by blast+
      have nb: "b \<notin> set (agents s)" using lt[of b] b(1) i(6) by auto
      then have no: "b \<notin> set order" using se by simp
      then have "b \<notin> set post" by (simp add: sp)
      with fr b(2) have f1: "heap s9 b = heap s3 b" "b \<in> set (agents s9) \<longleftrightarrow> b \<in> set (agents s3)"
        by blast+
      from fr ap a2 i(7) have "a \<in> set (agents s9) \<longleftrightarrow> a \<in> set (agents s3)"
        by (meson less_le_trans)
      with sp3 nb no f1 show ?thesis by (simp add: h9)
    qed
    with r show ?thesis by blast
  qed
  from g w show ?thesis unfolding order_def by blast
qed


theorem replacement_not_activated_witness:
  "\<exists>s k s1. reachable s \<and> is_perm [0, 1, 2] (length (agents s)) \<and>
      step s [0, 1, 2] (\<lambda>_. sample_draw) = Inr (k, s1) \<and> replacing s \<and>
      agents s = [0, 1, 2] \<and> agents s1 = [1, 2, 3] \<and>
      3 \<notin> set (shuffle_by [0, 1, 2] (agents s)) \<and>
      (\<exists>a c. heap s1 3 = Agent c (spawn_traits (sample_draw)) \<and> a \<in> set (agents s)) \<and>
      heap s1 3 = Agent (0, 0) sample_traits \<and> age (heap s1 3) = 0 \<and> reserve (heap s1 3) = 5"
proof -
  from trio_run_with_replace obtain s k s1 where
    f: "reachable s" "is_perm [0, 1, 2] (length (agents s))"
      "step s [0, 1, 2] (\<lambda>_. sample_draw) = Inr (k, s1)" "replacing s"
      "agents s = [0, 1, 2]" "agents s1 = [1, 2, 3]"
      "heap s1 3 = Agent (0, 0) sample_traits"
    by (elim exE conjE)
  have m: "3 \<in> set (agents s1)" "3 \<notin> set (agents s)" by (simp_all add: f)
  from replacement_not_activated[OF f(1,2,3)] m
  have g: "3 \<notin> set (shuffle_by [0, 1, 2] (agents s))"
    "\<exists>a\<in>set (agents s). \<exists>c\<in>set (spawn_cells (sample_draw)). heap s1 3 = Agent c (spawn_traits (sample_draw))"
    by blast+
  then have g2: "\<exists>a c. heap s1 3 = Agent c (spawn_traits (sample_draw)) \<and> a \<in> set (agents s)"
    by blast
  have h: "age (heap s1 3) = 0" "reserve (heap s1 3) = 5"
    by (simp_all add: f(7) Agent_def sample_traits_def)
  have "reachable s \<and> is_perm [0, 1, 2] (length (agents s)) \<and>
      step s [0, 1, 2] (\<lambda>_. sample_draw) = Inr (k, s1) \<and> replacing s \<and>
      agents s = [0, 1, 2] \<and> agents s1 = [1, 2, 3] \<and>
      3 \<notin> set (shuffle_by [0, 1, 2] (agents s)) \<and>
      (\<exists>a c. heap s1 3 = Agent c (spawn_traits (sample_draw)) \<and> a \<in> set (agents s)) \<and>
      heap s1 3 = Agent (0, 0) sample_traits \<and> age (heap s1 3) = 0 \<and> reserve (heap s1 3) = 5"
    using f g(1) g2 h by simp
  then show ?thesis
    by (intro exI)
qed

section \<open>Harvests\<close>

lemma harvest_site_free:
  assumes ok: "occupancy_ok s" and mem: "a \<in> set (agents s)"
    and hs: "harvest_site s d a = Inr (c, occ)"
  shows "occ = occupied s - {loc_of s a} \<and> c \<notin> occ"
proof -
  from hs obtain r where rel: "release s a = Inr r"
    by (auto simp: harvest_site_def harvest_call_def Let_def split: sum.splits)
  then have r: "r = s\<lparr>occupied := occupied s - {loc_of s a}\<rparr>"
    by (auto simp: release_def Let_def loc_of_def split: if_splits)
  from hs rel have lm: "look_and_move r (kernel d) (loc (heap r a)) (vision (heap r a)) = Inr c"
    and o: "occ = occupied r"
    by (auto simp: harvest_site_def harvest_call_def Let_def split: sum.splits)
  from look_and_move_free[OF lm] have "c \<notin> occupied r"
    by (auto simp: r loc_of_def)
  with o show ?thesis by (simp add: r)
qed

lemma activate_site:
  assumes al: "allocated s" and mem: "a \<in> set (agents s)" and act: "activate repl s d a = Inr s1"
  shows "\<exists>c occ. harvest_site s d a = Inr (c, occ) \<and> loc_of s1 a = c"
proof -
  from act obtain r where rel: "release s a = Inr r"
    by (auto simp: activate_def split: sum.splits)
  from act rel obtain s2 where ast: "agent_step r (kernel d) a = Inr s2"
    and st: "settle repl s2 d a = Inr s1"
    by (auto simp: activate_def split: sum.splits)
  from ast obtain c where lm: "look_and_move r (kernel d) (loc (heap r a)) (vision (heap r a)) = Inr c"
    by (auto simp: agent_step_def Let_def split: sum.splits)
  from ast lm have l2: "loc (heap s2 a) = c"
    by (auto simp: agent_step_def Let_def harvest_def split: sum.splits prod.splits)
  from release_frame[OF rel] agent_step_frame[OF ast] have nx: "next_addr s2 = next_addr s" by simp
  from al mem have "a < next_addr s" by (simp add: allocated_def list_all_iff)
  with st nx have "heap s1 a = heap s2 a"
    by (auto simp: settle_def add_agent_def Let_def split: if_splits sum.splits)
  with l2 rel lm show ?thesis by (simp add: harvest_site_def harvest_call_def Let_def loc_of_def)
qed

lemma look_and_move_no_KeyError: "look_and_move s kern c v \<noteq> Inl KeyError"
proof -
  have r: "read_all n g cs \<noteq> Inl KeyError" for n g cs
    by (induction cs) (auto simp: array_get_def np_cell_def np_index_def split: sum.splits if_splits)
  show ?thesis
    using r[of "grid_n s" "array s"]
    by (auto simp: look_and_move_def make_visible_locs_def argmax_def Let_def
        split: sum.splits if_splits list.splits)
qed

lemma agent_step_no_KeyError: "agent_step s kern a \<noteq> Inl KeyError"
  using look_and_move_no_KeyError[of s kern "loc (heap s a)" "vision (heap s a)"]
  by (auto simp: agent_step_def Let_def harvest_def np_cell_def np_index_def
      split: sum.splits if_splits prod.splits)

lemma random_loc_no_KeyError: "random_loc s cs \<noteq> Inl KeyError"
  by (induction cs) auto

lemma settle_no_KeyError: "settle repl s d a \<noteq> Inl KeyError"
  using random_loc_no_KeyError
  by (auto simp: settle_def add_agent_def Let_def split: sum.splits if_splits)

lemma activate_no_KeyError:
  assumes "occupancy_ok s" and "a \<in> set (agents s)"
  shows "activate repl s d a \<noteq> Inl KeyError"
proof -
  from assms have "loc (heap s a) \<in> occupied s"
    by (auto simp: occupancy_ok_alt loc_of_def)
  then obtain r where "release s a = Inr r" by (simp add: release_def Let_def)
  then show ?thesis
    using agent_step_no_KeyError[of r "kernel d" a] settle_no_KeyError[of repl _ d a]
    by (auto simp: activate_def split: sum.splits)
qed

lemma activate_all_no_KeyError:
  assumes "occupancy_ok s" and "allocated s" and "distinct as" and "set as \<subseteq> set (agents s)"
  shows "activate_all repl rnd as s \<noteq> Inl KeyError"
  using assms
proof (induction as arbitrary: s)
  case Nil
  then show ?case by simp
next
  case (Cons a as)
  from Cons.prems have mem: "a \<in> set (agents s)" and na: "a \<notin> set as" and da: "distinct as"
    and sub: "set as \<subseteq> set (agents s)"
    by auto
  show ?case
  proof (cases "activate repl s (rnd a) a")
    case (Inl e)
    with activate_no_KeyError[OF Cons.prems(1) mem, of repl "rnd a"] show ?thesis by simp
  next
    case (Inr s2)
    from Cons.prems(2) have lt: "\<And>b. b \<in> set (agents s) \<Longrightarrow> b < next_addr s"
      by (simp add: allocated_def list_all_iff)
    note e = activate_effect[OF Cons.prems(1,2) mem Inr]
    have sub2: "set as \<subseteq> set (agents s2)"
    proof
      fix b assume b: "b \<in> set as"
      with na sub have "b \<noteq> a" "b \<in> set (agents s)" by auto
      with e lt[of b] show "b \<in> set (agents s2)" by simp
    qed
    from e have "occupancy_ok s2" "allocated s2" by simp_all
    from Cons.IH[OF this da sub2] Inr show ?thesis by simp
  qed
qed

lemma harvest_sites_free:
  assumes "occupancy_ok s" and "allocated s" and "distinct as" and "set as \<subseteq> set (agents s)"
  shows "(\<forall>ev\<in>set (harvest_sites repl rnd as s). fst (snd ev) \<notin> snd (snd ev)) \<and>
         (\<forall>x. x \<in> set (agents s) \<and> x \<notin> set as \<longrightarrow>
            (\<forall>ev\<in>set (harvest_sites repl rnd as s). fst (snd ev) \<noteq> loc_of s x)) \<and>
         (\<exists>k. map fst (harvest_sites repl rnd as s) = take k as)"
  using assms
proof (induction as arbitrary: s)
  case Nil
  then show ?case by simp
next
  case (Cons a as)
  from Cons.prems have mem: "a \<in> set (agents s)" and na: "a \<notin> set as" and da: "distinct as"
    and sub: "set as \<subseteq> set (agents s)"
    by auto
  from Cons.prems(2) have lt: "\<And>b. b \<in> set (agents s) \<Longrightarrow> b < next_addr s"
    by (simp add: allocated_def list_all_iff)
  from Cons.prems(1) have inj: "inj_on (loc_of s) (set (agents s))"
    and occ: "occupied s = loc_of s ` set (agents s)"
    by (simp_all add: occupancy_ok_alt)
  show ?case
  proof (cases "harvest_site s (rnd a) a")
    case (Inl e)
    then have "harvest_sites repl rnd (a # as) s = []" by simp
    then show ?thesis by simp
  next
    case (Inr ev)
    obtain c oc where ev: "ev = (c, oc)" by (cases ev)
    from harvest_site_free[OF Cons.prems(1) mem Inr[unfolded ev]]
    have oc: "oc = occupied s - {loc_of s a}" and free: "c \<notin> oc" by blast+
    have other: "c \<noteq> loc_of s x" if x: "x \<in> set (agents s)" "x \<noteq> a" for x
    proof -
      from inj x mem have "loc_of s x \<noteq> loc_of s a" by (auto simp: inj_on_def)
      with x(1) have "loc_of s x \<in> oc" by (simp add: oc occ)
      with free show ?thesis by auto
    qed
    show ?thesis
    proof (cases "activate repl s (rnd a) a")
      case (Inl e)
      with Inr ev have tr: "harvest_sites repl rnd (a # as) s = [(a, c, oc)]" by simp
      have "map fst [(a, c, oc)] = take 1 (a # as)" by simp
      then have "\<exists>k. map fst [(a, c, oc)] = take k (a # as)" by (rule exI)
      then show ?thesis unfolding tr using free other by auto
    next
      case act: (Inr s2)
      with Inr ev have tr: "harvest_sites repl rnd (a # as) s = (a, c, oc) # harvest_sites repl rnd as s2"
        by simp
      note e = activate_effect[OF Cons.prems(1,2) mem act]
      from e have ok2: "occupancy_ok s2" and al2: "allocated s2"
        and fr2: "\<And>b. b \<noteq> a \<Longrightarrow> b < next_addr s \<Longrightarrow>
               heap s2 b = heap s b \<and> (b \<in> set (agents s2) \<longleftrightarrow> b \<in> set (agents s))"
        by blast+
      have sub2: "set as \<subseteq> set (agents s2)"
      proof
        fix b assume b: "b \<in> set as"
        with na sub have "b \<noteq> a" "b \<in> set (agents s)" by auto
        with fr2[of b] lt[of b] show "b \<in> set (agents s2)" by simp
      qed
      note ih = Cons.IH[OF ok2 al2 da sub2]
      have p1: "\<forall>ev\<in>set (harvest_sites repl rnd (a # as) s). fst (snd ev) \<notin> snd (snd ev)"
        unfolding tr using free ih by simp
      have p2: "\<forall>x. x \<in> set (agents s) \<and> x \<notin> set (a # as) \<longrightarrow>
            (\<forall>ev\<in>set (harvest_sites repl rnd (a # as) s). fst (snd ev) \<noteq> loc_of s x)"
      proof (intro allI impI)
        fix x assume x: "x \<in> set (agents s) \<and> x \<notin> set (a # as)"
        then have x1: "x \<in> set (agents s)" "x \<noteq> a" "x \<notin> set as" by auto
        with fr2[of x] lt[of x] have x2: "x \<in> set (agents s2)" "loc_of s2 x = loc_of s x"
          by (simp_all add: loc_of_def)
        with ih x1(3) have "\<forall>ev\<in>set (harvest_sites repl rnd as s2). fst (snd ev) \<noteq> loc_of s x"
          by metis
        with other[OF x1(1,2)]
        show "\<forall>ev\<in>set (harvest_sites repl rnd (a # as) s). fst (snd ev) \<noteq> loc_of s x"
          unfolding tr by simp
      qed
      from ih obtain k where "map fst (harvest_sites repl rnd as s2) = take k as" by blast
      then have "map fst (harvest_sites repl rnd (a # as) s) = take (Suc k) (a # as)"
        unfolding tr by simp
      then have p3: "\<exists>k. map fst (harvest_sites repl rnd (a # as) s) = take k (a # as)" by (rule exI)
      from p1 p2 p3 show ?thesis by blast
    qed
  qed
qed

lemma harvest_sites_complete:
  assumes "occupancy_ok s" and "allocated s" and "distinct as" and "set as \<subseteq> set (agents s)"
    and "activate_all repl rnd as s = Inr s1"
  shows "map fst (harvest_sites repl rnd as s) = as \<and>
         (\<forall>ev\<in>set (harvest_sites repl rnd as s). loc_of s1 (fst ev) = fst (snd ev)) \<and>
         (\<forall>i j. i < j \<and> j < length (harvest_sites repl rnd as s) \<and>
            fst (snd (harvest_sites repl rnd as s ! i)) = fst (snd (harvest_sites repl rnd as s ! j))
            \<longrightarrow> fst (harvest_sites repl rnd as s ! i) \<notin> set (agents s1))"
  using assms
proof (induction as arbitrary: s)
  case Nil
  then show ?case by simp
next
  case (Cons a as)
  from Cons.prems(5) obtain s2 where act: "activate repl s (rnd a) a = Inr s2"
    and rest: "activate_all repl rnd as s2 = Inr s1"
    by (auto split: sum.splits)
  from Cons.prems have mem: "a \<in> set (agents s)" and na: "a \<notin> set as" and da: "distinct as"
    and sub: "set as \<subseteq> set (agents s)"
    by auto
  from Cons.prems(2) have lt: "\<And>b. b \<in> set (agents s) \<Longrightarrow> b < next_addr s"
    by (simp add: allocated_def list_all_iff)
  from activate_site[OF Cons.prems(2) mem act] obtain c oc where
    hs: "harvest_site s (rnd a) a = Inr (c, oc)" and lc: "loc_of s2 a = c" by blast
  define tr where "tr = harvest_sites repl rnd as s2"
  from hs act have tr: "harvest_sites repl rnd (a # as) s = (a, c, oc) # tr"
    by (simp add: tr_def)
  note e = activate_effect[OF Cons.prems(1,2) mem act]
  from e have ok2: "occupancy_ok s2" and al2: "allocated s2" and nx2: "next_addr s \<le> next_addr s2"
    and fr2: "\<And>b. b \<noteq> a \<Longrightarrow> b < next_addr s \<Longrightarrow>
               heap s2 b = heap s b \<and> (b \<in> set (agents s2) \<longleftrightarrow> b \<in> set (agents s))"
    by blast+
  have sub2: "set as \<subseteq> set (agents s2)"
  proof
    fix b assume b: "b \<in> set as"
    with na sub have "b \<noteq> a" "b \<in> set (agents s)" by auto
    with fr2[of b] lt[of b] show "b \<in> set (agents s2)" by simp
  qed
  note ih = Cons.IH[OF ok2 al2 da sub2 rest, folded tr_def]
  note e3 = activate_all_effect[OF ok2 al2 da sub2 rest]
  have a2: "a < next_addr s2" using lt[OF mem] nx2 by simp
  from e3 na a2 have ha: "heap s1 a = heap s2 a" and ma: "a \<in> set (agents s1) \<longleftrightarrow> a \<in> set (agents s2)"
    by blast+
  have p1: "map fst (harvest_sites repl rnd (a # as) s) = a # as"
    unfolding tr using ih by simp
  have p2: "\<forall>ev\<in>set (harvest_sites repl rnd (a # as) s). loc_of s1 (fst ev) = fst (snd ev)"
    unfolding tr using ih lc ha by (simp add: loc_of_def)
  have p3: "fst (((a, c, oc) # tr) ! i) \<notin> set (agents s1)"
    if ij: "i < j" "j < length ((a, c, oc) # tr)"
      "fst (snd (((a, c, oc) # tr) ! i)) = fst (snd (((a, c, oc) # tr) ! j))" for i j
  proof (cases i)
    case 0
    from ij 0 obtain j' where j: "j = Suc j'" "j' < length tr" by (cases j) auto
    with ij(3) 0 have same: "fst (snd (tr ! j')) = c" by simp
    show ?thesis
    proof
      assume "fst (((a, c, oc) # tr) ! i) \<in> set (agents s1)"
      with 0 ma have m2: "a \<in> set (agents s2)" by simp
      from harvest_sites_free[OF ok2 al2 da sub2, of repl rnd] m2 na
      have "\<forall>ev\<in>set tr. fst (snd ev) \<noteq> loc_of s2 a" unfolding tr_def by blast
      moreover have "tr ! j' \<in> set tr" using j(2) by simp
      ultimately have "fst (snd (tr ! j')) \<noteq> loc_of s2 a" by (rule bspec)
      with same lc show False by simp
    qed
  next
    case (Suc i')
    with ij obtain j' where j: "j = Suc j'" "i' < j'" "j' < length tr" by (cases j) auto
    with ij(3) Suc have "fst (snd (tr ! i')) = fst (snd (tr ! j'))" by simp
    with ih j have "fst (tr ! i') \<notin> set (agents s1)" by blast
    with Suc show ?thesis by simp
  qed
  from p1 p2 p3 show ?case unfolding tr by blast
qed


text \<open>The step of an agent calls \<^verbatim>\<open>harvest\<close> once, on the engine and with the cell of
  \<open>harvest_call\<close>.\<close>

lemma agent_step_harvest_call:
  "agent_step s kern a =
     (case harvest_call s kern a of Inl e \<Rightarrow> Inl e
      | Inr (s1, dest) \<Rightarrow>
          (case harvest s1 dest of Inl e \<Rightarrow> Inl e | Inr r \<Rightarrow> Inr (after_harvest a r)))"
  by (auto simp: agent_step_def harvest_call_def after_harvest_def Let_def
      split: sum.splits prod.splits)

lemma activate_harvest:
  assumes al: "allocated s" and mem: "a \<in> set (agents s)" and act: "activate repl s d a = Inr s1"
  shows "\<exists>r h c got h1. release s a = Inr r \<and> harvest_call r (kernel d) a = Inr (h, c) \<and>
           harvest_site s d a = Inr (c, occupied h) \<and>
           harvest h c = Inr (got, h1) \<and> settle repl (after_harvest a (got, h1)) d a = Inr s1 \<and>
           array s1 = array h1 \<and> array h = array s \<and>
           reserve (heap s1 a) = reserve (heap s a) + of_int got - metabolism (heap s a)"
proof -
  from act obtain r where rel: "release s a = Inr r"
    by (auto simp: activate_def split: sum.splits)
  from act rel obtain s2 where ast: "agent_step r (kernel d) a = Inr s2"
    and st: "settle repl s2 d a = Inr s1"
    by (auto simp: activate_def split: sum.splits)
  from ast obtain h c got h1 where hc: "harvest_call r (kernel d) a = Inr (h, c)"
    and hv: "harvest h c = Inr (got, h1)" and s2: "s2 = after_harvest a (got, h1)"
    by (auto simp: agent_step_harvest_call split: sum.splits prod.splits)
  from hc have fh: "array h = array r" "next_addr h = next_addr r"
    "\<And>x. reserve (heap h x) = reserve (heap r x)" "\<And>x. metabolism (heap h x) = metabolism (heap r x)"
    by (auto simp: harvest_call_def Let_def split: sum.splits)
  from release_frame[OF rel] have fr: "array r = array s" "heap r = heap s" "next_addr r = next_addr s"
    by simp_all
  from harvest_frame[OF hv] have f1: "heap h1 = heap h" "next_addr h1 = next_addr h" by simp_all
  have r2: "reserve (heap s2 a) = reserve (heap s a) + of_int got - metabolism (heap s a)"
    by (simp add: s2 after_harvest_def Let_def f1 fh fr)
  have nx: "next_addr s2 = next_addr s" by (simp add: s2 after_harvest_def Let_def f1 fh fr)
  from al mem have "a < next_addr s" by (simp add: allocated_def list_all_iff)
  with st nx have "heap s1 a = heap s2 a"
    by (auto simp: settle_def add_agent_def Let_def split: if_splits sum.splits)
  moreover from settle_frame[OF st] have "array s1 = array h1"
    by (simp add: s2 after_harvest_def Let_def)
  moreover have "harvest_site s d a = Inr (c, occupied h)"
    by (simp add: harvest_site_def rel hc)
  ultimately have "release s a = Inr r \<and> harvest_call r (kernel d) a = Inr (h, c) \<and>
           harvest_site s d a = Inr (c, occupied h) \<and>
           harvest h c = Inr (got, h1) \<and> settle repl (after_harvest a (got, h1)) d a = Inr s1 \<and>
           array s1 = array h1 \<and> array h = array s \<and>
           reserve (heap s1 a) = reserve (heap s a) + of_int got - metabolism (heap s a)"
    using rel hc hv st r2 fh(1) fr(1) unfolding s2 by simp
  then show ?thesis by (intro exI)
qed

lemma activate_site_Inr:
  "activate repl s d a = Inr s1 \<Longrightarrow> \<exists>ev. harvest_site s d a = Inr ev"
  by (auto simp: activate_def harvest_site_def agent_step_harvest_call split: sum.splits prod.splits)

lemma harvest_sites_append:
  "activate_all repl rnd xs s = Inr s2 \<Longrightarrow>
     harvest_sites repl rnd (xs @ ys) s = harvest_sites repl rnd xs s @ harvest_sites repl rnd ys s2 \<and>
     length (harvest_sites repl rnd xs s) = length xs"
proof (induction xs arbitrary: s)
  case Nil
  then show ?case by simp
next
  case (Cons a xs)
  from Cons.prems obtain s1 where act: "activate repl s (rnd a) a = Inr s1"
    and rest: "activate_all repl rnd xs s1 = Inr s2"
    by (auto split: sum.splits)
  from activate_site_Inr[OF act] obtain ev where "harvest_site s (rnd a) a = Inr ev" by blast
  with act Cons.IH[OF rest] show ?case by simp
qed


text \<open>
  Claim C6, as amended. During a step from an engine that satisfies the occupancy
  invariant (and whose live agents are objects that exist), the step of an agent calls
  \<^verbatim>\<open>harvest\<close> exactly once, and the cell it passes is not in the occupied set of the
  engine at that moment; the step never raises the KeyError of \<^verbatim>\<open>occupied.remove\<close>: the
  invariant-violation case is unreachable. Each agent harvests at most once in the
  step. When the step completes, every agent of the activation order has harvested
  exactly once, at the cell that is its location when the step returns: its activation
  leaves the levels that its call of \<^verbatim>\<open>harvest\<close> returned and adds the value it
  returned, less the metabolism, to its reserve. A cell is harvested a second time in
  the step only when the agent of the earlier harvest has died in it.
\<close>

theorem harvests_unoccupied:
  assumes "occupancy_ok s" and "allocated s" and "is_perm p (length (agents s))"
  shows "step s p rnd \<noteq> Inl KeyError \<and>
    (\<forall>ev\<in>set (harvest_sites (replacing s) rnd (shuffle_by p (agents s)) s).
        fst (snd ev) \<notin> snd (snd ev)) \<and>
    distinct (map fst (harvest_sites (replacing s) rnd (shuffle_by p (agents s)) s)) \<and>
    (\<forall>r kern a. agent_step r kern a =
       (case harvest_call r kern a of Inl e \<Rightarrow> Inl e
        | Inr (h, c) \<Rightarrow> (case harvest h c of Inl e \<Rightarrow> Inl e | Inr g \<Rightarrow> Inr (after_harvest a g)))) \<and>
    (\<forall>k s1. step s p rnd = Inr (k, s1) \<longrightarrow>
       map fst (harvest_sites (replacing s) rnd (shuffle_by p (agents s)) s) = shuffle_by p (agents s) \<and>
       (\<forall>ev\<in>set (harvest_sites (replacing s) rnd (shuffle_by p (agents s)) s).
           loc_of s1 (fst ev) = fst (snd ev)) \<and>
       (\<forall>i j. i < j \<and> j < length (harvest_sites (replacing s) rnd (shuffle_by p (agents s)) s) \<and>
          fst (snd (harvest_sites (replacing s) rnd (shuffle_by p (agents s)) s ! i)) =
          fst (snd (harvest_sites (replacing s) rnd (shuffle_by p (agents s)) s ! j))
          \<longrightarrow> fst (harvest_sites (replacing s) rnd (shuffle_by p (agents s)) s ! i) \<notin> set (agents s1)) \<and>
       (\<forall>pre a post. shuffle_by p (agents s) = pre @ a # post \<longrightarrow>
          (\<exists>s2 s3 r h c got h1.
             activate_all (replacing s) rnd pre s = Inr s2 \<and>
             activate (replacing s) s2 (rnd a) a = Inr s3 \<and>
             release s2 a = Inr r \<and> harvest_call r (kernel (rnd a)) a = Inr (h, c) \<and>
             harvest h c = Inr (got, h1) \<and>
             harvest_sites (replacing s) rnd (shuffle_by p (agents s)) s ! length pre
               = (a, c, occupied h) \<and>
             c \<notin> occupied h \<and> array h = array s2 \<and> array s3 = array h1 \<and>
             reserve (heap s3 a) = reserve (heap s2 a) + of_int got - metabolism (heap s2 a))))"
proof -
  define order where "order = shuffle_by p (agents s)"
  define tr where "tr = harvest_sites (replacing s) rnd order s"
  from assms(1) have da: "distinct (agents s)" by (simp add: occupancy_ok_alt)
  have dd: "distinct order" unfolding order_def using assms(3) da by (rule shuffle_by_distinct)
  have ss: "set order \<subseteq> set (agents s)"
    unfolding order_def using shuffle_by_set[OF assms(3)] by simp
  have a: "step s p rnd \<noteq> Inl KeyError"
    using activate_all_no_KeyError[OF assms(1,2) dd ss, of "replacing s" rnd]
    by (auto simp: step_def Let_def replacing_def order_def split: sum.splits)
  note f = harvest_sites_free[OF assms(1,2) dd ss, of "replacing s" rnd, folded tr_def]
  from f have b: "\<forall>ev\<in>set tr. fst (snd ev) \<notin> snd (snd ev)" by blast
  from f obtain n where "map fst tr = take n order" by blast
  with dd have c: "distinct (map fst tr)" by simp
  have e: "\<forall>r kern a. agent_step r kern a =
       (case harvest_call r kern a of Inl e \<Rightarrow> Inl e
        | Inr (h, c) \<Rightarrow> (case harvest h c of Inl e \<Rightarrow> Inl e | Inr g \<Rightarrow> Inr (after_harvest a g)))"
    by (simp add: agent_step_harvest_call)
  have d: "map fst tr = order \<and> (\<forall>ev\<in>set tr. loc_of s1 (fst ev) = fst (snd ev)) \<and>
       (\<forall>i j. i < j \<and> j < length tr \<and> fst (snd (tr ! i)) = fst (snd (tr ! j))
          \<longrightarrow> fst (tr ! i) \<notin> set (agents s1)) \<and>
       (\<forall>pre a post. order = pre @ a # post \<longrightarrow>
          (\<exists>s2 s3 r h c got h1.
             activate_all (replacing s) rnd pre s = Inr s2 \<and>
             activate (replacing s) s2 (rnd a) a = Inr s3 \<and>
             release s2 a = Inr r \<and> harvest_call r (kernel (rnd a)) a = Inr (h, c) \<and>
             harvest h c = Inr (got, h1) \<and>
             tr ! length pre = (a, c, occupied h) \<and>
             c \<notin> occupied h \<and> array h = array s2 \<and> array s3 = array h1 \<and>
             reserve (heap s3 a) = reserve (heap s2 a) + of_int got - metabolism (heap s2 a)))"
    if st: "step s p rnd = Inr (k, s1)" for k s1
  proof -
    from st obtain s9 where run: "activate_all (replacing s) rnd order s = Inr s9"
      and h9: "heap s1 = heap s9" "agents s1 = agents s9"
      by (auto simp: step_def Let_def replacing_def order_def grow_def split: sum.splits)
    have l: "loc_of s1 = loc_of s9" by (simp add: loc_of_def h9 fun_eq_iff)
    have g: "\<exists>s2 s3 r h c got h1.
             activate_all (replacing s) rnd pre s = Inr s2 \<and>
             activate (replacing s) s2 (rnd a) a = Inr s3 \<and>
             release s2 a = Inr r \<and> harvest_call r (kernel (rnd a)) a = Inr (h, c) \<and>
             harvest h c = Inr (got, h1) \<and>
             tr ! length pre = (a, c, occupied h) \<and>
             c \<notin> occupied h \<and> array h = array s2 \<and> array s3 = array h1 \<and>
             reserve (heap s3 a) = reserve (heap s2 a) + of_int got - metabolism (heap s2 a)"
      if sp: "order = pre @ a # post" for pre a post
    proof -
      from dd ss run have dd': "distinct (pre @ a # post)"
        and ss': "set (pre @ a # post) \<subseteq> set (agents s)"
        and run': "activate_all (replacing s) rnd (pre @ a # post) s = Inr s9"
        by (simp_all add: sp)
      from activate_all_at[OF assms(1,2) dd' ss' run'] obtain s2 s3 where
        r: "activate_all (replacing s) rnd pre s = Inr s2"
           "activate (replacing s) s2 (rnd a) a = Inr s3"
        and i: "occupancy_ok s2" "allocated s2" "a \<in> set (agents s2)"
        by blast
      from activate_harvest[OF i(2,3) r(2)] obtain r0 h c got h1 where
        t: "release s2 a = Inr r0" "harvest_call r0 (kernel (rnd a)) a = Inr (h, c)"
           "harvest_site s2 (rnd a) a = Inr (c, occupied h)" "harvest h c = Inr (got, h1)"
           "array s3 = array h1" "array h = array s2"
           "reserve (heap s3 a) = reserve (heap s2 a) + of_int got - metabolism (heap s2 a)"
        by blast
      from harvest_site_free[OF i(1,3) t(3)] have fr: "c \<notin> occupied h" by blast
      from harvest_sites_append[OF r(1), of "a # post"]
      have "tr = harvest_sites (replacing s) rnd pre s @ harvest_sites (replacing s) rnd (a # post) s2"
        and "length (harvest_sites (replacing s) rnd pre s) = length pre"
        by (simp_all add: tr_def sp)
      then have "tr ! length pre = hd (harvest_sites (replacing s) rnd (a # post) s2)"
        using t(3) by (simp add: nth_append)
      with t(3) have nth: "tr ! length pre = (a, c, occupied h)" by simp
      have "activate_all (replacing s) rnd pre s = Inr s2 \<and>
             activate (replacing s) s2 (rnd a) a = Inr s3 \<and>
             release s2 a = Inr r0 \<and> harvest_call r0 (kernel (rnd a)) a = Inr (h, c) \<and>
             harvest h c = Inr (got, h1) \<and>
             tr ! length pre = (a, c, occupied h) \<and>
             c \<notin> occupied h \<and> array h = array s2 \<and> array s3 = array h1 \<and>
             reserve (heap s3 a) = reserve (heap s2 a) + of_int got - metabolism (heap s2 a)"
        using r t nth fr by simp
      then show ?thesis by (intro exI)
    qed
    from harvest_sites_complete[OF assms(1,2) dd ss run, folded tr_def] g
    show ?thesis unfolding l h9 by blast
  qed
  from a b c d e show ?thesis unfolding tr_def order_def by blast
qed


theorem harvests_unoccupied_witness:
  "\<exists>s k s1. occupancy_ok s \<and> allocated s \<and> is_perm [0, 1, 2] (length (agents s)) \<and>
     step s [0, 1, 2] (\<lambda>_. sample_draw) = Inr (k, s1) \<and> \<not> replacing s \<and>
     harvest_sites False (\<lambda>_. sample_draw) (shuffle_by [0, 1, 2] (agents s)) s =
       [(0, (1, 0), {(1, 1), (0, 1)}), (1, (1, 0), {(0, 1)}), (2, (1, 1), {(1, 0)})] \<and>
     step s [0, 1, 2] (\<lambda>_. sample_draw) \<noteq> Inl KeyError \<and>
     distinct (map fst (harvest_sites False (\<lambda>_. sample_draw) (shuffle_by [0, 1, 2] (agents s)) s)) \<and>
     0 \<notin> set (agents s1) \<and> loc_of s1 1 = (1, 0) \<and> loc_of s1 2 = (1, 1) \<and>
     (\<exists>s2 s3 r h got h1.
        activate_all False (\<lambda>_. sample_draw) [0] s = Inr s2 \<and>
        activate False s2 sample_draw 1 = Inr s3 \<and> release s2 1 = Inr r \<and>
        harvest_call r (kernel sample_draw) 1 = Inr (h, (1, 0)) \<and>
        harvest h (1, 0) = Inr (got, h1) \<and> occupied h = {(0, 1)} \<and> (1, 0) \<notin> occupied h \<and>
        array s3 = array h1 \<and>
        reserve (heap s3 1) = reserve (heap s2 1) + of_int got - metabolism (heap s2 1))"
proof -
  from trio_run_without_replace obtain s k s1 where
    f: "reachable s" "is_perm [0, 1, 2] (length (agents s))"
      "step s [0, 1, 2] (\<lambda>_. sample_draw) = Inr (k, s1)" "\<not> replacing s"
      "shuffle_by [0, 1, 2] (agents s) = [0, 1, 2]"
      "harvest_sites False (\<lambda>_. sample_draw) [0, 1, 2] s =
       [(0, (1, 0), {(1, 1), (0, 1)}), (1, (1, 0), {(0, 1)}), (2, (1, 1), {(1, 0)})]"
    by (elim exE conjE)
  from reachable_inv[OF f(1)] have i: "occupancy_ok s" "allocated s" by simp_all
  note t = harvests_unoccupied[OF i f(2), of "\<lambda>_. sample_draw"]
  from t have a: "step s [0, 1, 2] (\<lambda>_. sample_draw) \<noteq> Inl KeyError" by blast
  from t f(4) have b: "distinct (map fst (harvest_sites False (\<lambda>_. sample_draw) (shuffle_by [0, 1, 2] (agents s)) s))"
    by simp
  from t f(3) have c: "\<forall>ev\<in>set (harvest_sites (replacing s) (\<lambda>_. sample_draw) (shuffle_by [0, 1, 2] (agents s)) s).
           loc_of s1 (fst ev) = fst (snd ev)"
    and d: "\<forall>i j. i < j \<and> j < length (harvest_sites (replacing s) (\<lambda>_. sample_draw) (shuffle_by [0, 1, 2] (agents s)) s) \<and>
          fst (snd (harvest_sites (replacing s) (\<lambda>_. sample_draw) (shuffle_by [0, 1, 2] (agents s)) s ! i)) =
          fst (snd (harvest_sites (replacing s) (\<lambda>_. sample_draw) (shuffle_by [0, 1, 2] (agents s)) s ! j))
          \<longrightarrow> fst (harvest_sites (replacing s) (\<lambda>_. sample_draw) (shuffle_by [0, 1, 2] (agents s)) s ! i) \<notin> set (agents s1)"
    and e: "\<forall>pre a post. shuffle_by [0, 1, 2] (agents s) = pre @ a # post \<longrightarrow>
          (\<exists>s2 s3 r h c got h1.
             activate_all (replacing s) (\<lambda>_. sample_draw) pre s = Inr s2 \<and>
             activate (replacing s) s2 sample_draw a = Inr s3 \<and>
             release s2 a = Inr r \<and> harvest_call r (kernel sample_draw) a = Inr (h, c) \<and>
             harvest h c = Inr (got, h1) \<and>
             harvest_sites (replacing s) (\<lambda>_. sample_draw) (shuffle_by [0, 1, 2] (agents s)) s ! length pre
               = (a, c, occupied h) \<and>
             c \<notin> occupied h \<and> array h = array s2 \<and> array s3 = array h1 \<and>
             reserve (heap s3 a) = reserve (heap s2 a) + of_int got - metabolism (heap s2 a))"
    by blast+
  from c f(4,5,6) have l: "loc_of s1 1 = (1, 0)" "loc_of s1 2 = (1, 1)" by simp_all
  from d[rule_format, of 0 1] f(4,5,6) have z: "0 \<notin> set (agents s1)" by simp
  have sp: "shuffle_by [0, 1, 2] (agents s) = [0] @ 1 # [2]" using f(5) by simp
  from e[rule_format, OF sp] obtain s2 s3 r h c got h1 where
    g: "activate_all (replacing s) (\<lambda>_. sample_draw) [0] s = Inr s2"
       "activate (replacing s) s2 sample_draw 1 = Inr s3"
       "release s2 1 = Inr r" "harvest_call r (kernel sample_draw) 1 = Inr (h, c)"
       "harvest h c = Inr (got, h1)"
       "harvest_sites (replacing s) (\<lambda>_. sample_draw) (shuffle_by [0, 1, 2] (agents s)) s ! length [0::nat]
               = (1, c, occupied h)"
       "c \<notin> occupied h" "array s3 = array h1"
       "reserve (heap s3 1) = reserve (heap s2 1) + of_int got - metabolism (heap s2 1)"
    by blast
  from g(6) f(4,5,6) have cv: "c = (1, 0)" "occupied h = {(0, 1)}" by simp_all
  have w: "\<exists>s2 s3 r h got h1.
        activate_all False (\<lambda>_. sample_draw) [0] s = Inr s2 \<and>
        activate False s2 sample_draw 1 = Inr s3 \<and> release s2 1 = Inr r \<and>
        harvest_call r (kernel sample_draw) 1 = Inr (h, (1, 0)) \<and>
        harvest h (1, 0) = Inr (got, h1) \<and> occupied h = {(0, 1)} \<and> (1, 0) \<notin> occupied h \<and>
        array s3 = array h1 \<and>
        reserve (heap s3 1) = reserve (heap s2 1) + of_int got - metabolism (heap s2 1)"
  proof -
    have "activate_all False (\<lambda>_. sample_draw) [0] s = Inr s2 \<and>
        activate False s2 sample_draw 1 = Inr s3 \<and> release s2 1 = Inr r \<and>
        harvest_call r (kernel sample_draw) 1 = Inr (h, (1, 0)) \<and>
        harvest h (1, 0) = Inr (got, h1) \<and> occupied h = {(0, 1)} \<and> (1, 0) \<notin> occupied h \<and>
        array s3 = array h1 \<and>
        reserve (heap s3 1) = reserve (heap s2 1) + of_int got - metabolism (heap s2 1)"
      using g(1,2,3,4,5,7,8,9) f(4) cv by simp
    then show ?thesis by (intro exI)
  qed
  have "occupancy_ok s \<and> allocated s \<and> is_perm [0, 1, 2] (length (agents s)) \<and>
     step s [0, 1, 2] (\<lambda>_. sample_draw) = Inr (k, s1) \<and> \<not> replacing s \<and>
     harvest_sites False (\<lambda>_. sample_draw) (shuffle_by [0, 1, 2] (agents s)) s =
       [(0, (1, 0), {(1, 1), (0, 1)}), (1, (1, 0), {(0, 1)}), (2, (1, 1), {(1, 0)})] \<and>
     step s [0, 1, 2] (\<lambda>_. sample_draw) \<noteq> Inl KeyError \<and>
     distinct (map fst (harvest_sites False (\<lambda>_. sample_draw) (shuffle_by [0, 1, 2] (agents s)) s)) \<and>
     0 \<notin> set (agents s1) \<and> loc_of s1 1 = (1, 0) \<and> loc_of s1 2 = (1, 1) \<and>
     (\<exists>s2 s3 r h got h1.
        activate_all False (\<lambda>_. sample_draw) [0] s = Inr s2 \<and>
        activate False s2 sample_draw 1 = Inr s3 \<and> release s2 1 = Inr r \<and>
        harvest_call r (kernel sample_draw) 1 = Inr (h, (1, 0)) \<and>
        harvest h (1, 0) = Inr (got, h1) \<and> occupied h = {(0, 1)} \<and> (1, 0) \<notin> occupied h \<and>
        array s3 = array h1 \<and>
        reserve (heap s3 1) = reserve (heap s2 1) + of_int got - metabolism (heap s2 1))"
    using i f a b z l w by simp
  then show ?thesis by (intro exI)
qed

text \<open>The first two calls of \<^verbatim>\<open>harvest\<close> in the sample run without replacement.\<close>

lemma trio_harvest_calls:
  "case construct 2 (trio_params False) [0, 3, 1, 2] trio_traits of Inl e \<Rightarrow> False
   | Inr s \<Rightarrow>
   (case release s 0 of Inl e \<Rightarrow> False | Inr r \<Rightarrow>
   (case harvest_call r (kernel sample_draw) 0 of Inl e \<Rightarrow> False | Inr hc \<Rightarrow>
      snd hc = (1, 0) \<and> occupied (fst hc) = {(1, 1), (0, 1)} \<and>
   (case harvest (fst hc) (1, 0) of Inl e \<Rightarrow> False | Inr g \<Rightarrow> fst g = 1 \<and>
   (case activate False s sample_draw 0 of Inl e \<Rightarrow> False | Inr s2 \<Rightarrow>
      0 \<notin> set (agents s2) \<and> array s2 (1, 0) = 0 \<and>
   (case release s2 1 of Inl e \<Rightarrow> False | Inr r1 \<Rightarrow>
   (case harvest_call r1 (kernel sample_draw) 1 of Inl e \<Rightarrow> False | Inr hc1 \<Rightarrow>
      snd hc1 = (1, 0) \<and> occupied (fst hc1) = {(0, 1)} \<and>
   (case harvest (fst hc1) (1, 0) of Inl e \<Rightarrow> False | Inr g1 \<Rightarrow> fst g1 = 0 \<and>
   (case activate False s2 sample_draw 1 of Inl e \<Rightarrow> False | Inr s3 \<Rightarrow>
      reserve (heap s3 1) = 4))))))))"
  by code_simp


text \<open>
  The claim C6 as it is written fails in its consequence that each cell is harvested
  at most once per step: a dead agent's cell is not marked occupied, so a later agent
  of the same step can move there. In the sample run without replacement, started
  from a constructed engine, the step of agent 0 calls \<^verbatim>\<open>harvest\<close> with the cell
  \<open>(1, 0)\<close>, which returns 1, and agent 0 dies of age; the step of agent 1 then calls
  \<^verbatim>\<open>harvest\<close> with the cell \<open>(1, 0)\<close> again, which returns 0.
\<close>

theorem harvest_once_counterexample:
  "\<exists>s k s9 r h h1 s2 r1 h' h1' s3.
     construct 2 (trio_params False) [0, 3, 1, 2] trio_traits = Inr s \<and>
     occupancy_ok s \<and> allocated s \<and> is_perm [0, 1, 2] (length (agents s)) \<and>
     shuffle_by [0, 1, 2] (agents s) = [0, 1, 2] \<and>
     step s [0, 1, 2] (\<lambda>_. sample_draw) = Inr (k, s9) \<and>
     release s 0 = Inr r \<and> harvest_call r (kernel sample_draw) 0 = Inr (h, (1, 0)) \<and>
     harvest h (1, 0) = Inr (1, h1) \<and>
     activate (replacing s) s sample_draw 0 = Inr s2 \<and>
     release s2 1 = Inr r1 \<and> harvest_call r1 (kernel sample_draw) 1 = Inr (h', (1, 0)) \<and>
     harvest h' (1, 0) = Inr (0, h1') \<and>
     activate (replacing s) s2 sample_draw 1 = Inr s3 \<and>
     map (\<lambda>ev. (fst ev, fst (snd ev)))
       (harvest_sites (replacing s) (\<lambda>_. sample_draw) (shuffle_by [0, 1, 2] (agents s)) s)
       = [(0, (1, 0)), (1, (1, 0)), (2, (1, 1))] \<and>
     \<not> distinct (map (\<lambda>ev. fst (snd ev))
       (harvest_sites (replacing s) (\<lambda>_. sample_draw) (shuffle_by [0, 1, 2] (agents s)) s))"
proof -
  from trio_run_without_replace obtain s k s9 where
    f: "construct 2 (trio_params False) [0, 3, 1, 2] trio_traits = Inr s"
      "reachable s" "is_perm [0, 1, 2] (length (agents s))"
      "step s [0, 1, 2] (\<lambda>_. sample_draw) = Inr (k, s9)" "\<not> replacing s"
      "shuffle_by [0, 1, 2] (agents s) = [0, 1, 2]"
      "harvest_sites False (\<lambda>_. sample_draw) [0, 1, 2] s =
       [(0, (1, 0), {(1, 1), (0, 1)}), (1, (1, 0), {(0, 1)}), (2, (1, 1), {(1, 0)})]"
    by (elim exE conjE)
  from reachable_inv[OF f(2)] have i: "occupancy_ok s" "allocated s" by simp_all
  from trio_harvest_calls f(1) obtain r hc g s2 r1 hc1 g1 s3 where
    c: "release s 0 = Inr r" "harvest_call r (kernel sample_draw) 0 = Inr hc" "snd hc = (1, 0)"
       "harvest (fst hc) (1, 0) = Inr g" "fst g = 1"
       "activate False s sample_draw 0 = Inr s2"
       "release s2 1 = Inr r1" "harvest_call r1 (kernel sample_draw) 1 = Inr hc1" "snd hc1 = (1, 0)"
       "harvest (fst hc1) (1, 0) = Inr g1" "fst g1 = 0"
       "activate False s2 sample_draw 1 = Inr s3"
    by (auto split: sum.splits)
  have e: "hc = (fst hc, (1, 0))" "g = (1, snd g)" "hc1 = (fst hc1, (1, 0))" "g1 = (0, snd g1)"
    using c(3,5,9,11) by (simp_all add: prod_eq_iff)
  have "construct 2 (trio_params False) [0, 3, 1, 2] trio_traits = Inr s \<and>
     occupancy_ok s \<and> allocated s \<and> is_perm [0, 1, 2] (length (agents s)) \<and>
     shuffle_by [0, 1, 2] (agents s) = [0, 1, 2] \<and>
     step s [0, 1, 2] (\<lambda>_. sample_draw) = Inr (k, s9) \<and>
     release s 0 = Inr r \<and> harvest_call r (kernel sample_draw) 0 = Inr (fst hc, (1, 0)) \<and>
     harvest (fst hc) (1, 0) = Inr (1, snd g) \<and>
     activate (replacing s) s sample_draw 0 = Inr s2 \<and>
     release s2 1 = Inr r1 \<and> harvest_call r1 (kernel sample_draw) 1 = Inr (fst hc1, (1, 0)) \<and>
     harvest (fst hc1) (1, 0) = Inr (0, snd g1) \<and>
     activate (replacing s) s2 sample_draw 1 = Inr s3 \<and>
     map (\<lambda>ev. (fst ev, fst (snd ev)))
       (harvest_sites (replacing s) (\<lambda>_. sample_draw) (shuffle_by [0, 1, 2] (agents s)) s)
       = [(0, (1, 0)), (1, (1, 0)), (2, (1, 1))] \<and>
     \<not> distinct (map (\<lambda>ev. fst (snd ev))
       (harvest_sites (replacing s) (\<lambda>_. sample_draw) (shuffle_by [0, 1, 2] (agents s)) s))"
    using i f c(1,6,7,12) c(2)[unfolded e(1)[symmetric]] c(4) c(8) c(10) e
    by (simp del: prod.collapse)
  then show ?thesis by (intro exI)
qed

end
